theory Spec2Isabelle
  imports Main
begin

unbundle bit_operations_syntax

section \<open>JavaScript numbers, operators and strings\<close>

text \<open>
  The library computes on JavaScript numbers (IEEE doubles) that hold integers. A number
  is modelled by the integer it holds. The arithmetic operators round their exact result
  to the nearest double (ties to even), the bitwise operators first convert their
  operands with ToInt32 or ToUint32, and the shift operators use the low five bits of
  the shift count.
\<close>

function bitlen :: "int \<Rightarrow> nat" where
  "bitlen n = (if n \<le> 0 then 0 else Suc (bitlen (n div 2)))"
  by pat_completeness auto
termination
  by (relation "measure nat") auto

declare bitlen.simps [simp del]

definition fl :: "int \<Rightarrow> int" where
  "fl n =
     (let m = \<bar>n\<bar> in
      if m \<le> 2 ^ 53 then n
      else
        let e = bitlen m - 53;
            q = m div 2 ^ e;
            r = m mod 2 ^ e;
            h = 2 ^ (e - 1);
            q' = (if r > h \<or> (r = h \<and> odd q) then q + 1 else q)
        in sgn n * (q' * 2 ^ e))"

definition js_add :: "int \<Rightarrow> int \<Rightarrow> int" where
  "js_add a b = fl (a + b)"

definition js_sub :: "int \<Rightarrow> int \<Rightarrow> int" where
  "js_sub a b = fl (a - b)"

definition js_mul :: "int \<Rightarrow> int \<Rightarrow> int" where
  "js_mul a b = fl (a * b)"

definition toInt32 :: "int \<Rightarrow> int" where
  "toInt32 n = signed_take_bit 31 n"

definition toUint32 :: "int \<Rightarrow> int" where
  "toUint32 n = take_bit 32 n"

definition js_and :: "int \<Rightarrow> int \<Rightarrow> int" where
  "js_and a b = toInt32 a AND toInt32 b"

definition js_or :: "int \<Rightarrow> int \<Rightarrow> int" where
  "js_or a b = toInt32 a OR toInt32 b"

definition js_xor :: "int \<Rightarrow> int \<Rightarrow> int" where
  "js_xor a b = toInt32 a XOR toInt32 b"

definition js_not :: "int \<Rightarrow> int" where
  "js_not a = NOT (toInt32 a)"

definition js_shl :: "int \<Rightarrow> nat \<Rightarrow> int" where
  "js_shl a k = toInt32 (push_bit (k mod 32) (toInt32 a))"

definition js_sar :: "int \<Rightarrow> nat \<Rightarrow> int" where
  "js_sar a k = drop_bit (k mod 32) (toInt32 a)"

definition js_shr :: "int \<Rightarrow> nat \<Rightarrow> int" where
  "js_shr a k = drop_bit (k mod 32) (toUint32 a)"

text \<open>
  A thrown \<open>Error\<close> is a value that carries its message. A function that can throw
  returns \<open>error + 'a\<close>.
\<close>

datatype error = Error string

text \<open>
  An argument of unknown type, as \<open>validateInt\<close> receives it: a finite number holding
  an integer, a finite number that is not an integer, NaN, the infinities, or a value
  that is not a number.
\<close>

datatype jsval = Num int | NonInt | NaN | PosInf | NegInf | NotNumber

fun validateInt :: "jsval \<Rightarrow> int \<Rightarrow> int \<Rightarrow> error + int" where
  "validateInt NotNumber mn mx = Inl (Error ''invalid type'')"
| "validateInt NonInt mn mx = Inl (Error ''invalid integer'')"
| "validateInt NaN mn mx = Inl (Error ''invalid integer'')"
| "validateInt PosInf mn mx = Inl (Error ''invalid value'')"
| "validateInt NegInf mn mx = Inl (Error ''invalid value'')"
| "validateInt (Num n) mn mx =
     (if n < mn \<or> n > mx then Inl (Error ''invalid value'') else Inr n)"

text \<open>
  Strings are lists of characters; \<open>charCodeAt\<close> is only called below the length
  that \<open>validateStr\<close> has checked.
\<close>

definition validateStr :: "string \<Rightarrow> nat \<Rightarrow> error + unit" where
  "validateStr arg len =
     (if length arg \<noteq> len then Inl (Error ''invalid length'') else Inr ())"

definition charCodeAt :: "string \<Rightarrow> nat \<Rightarrow> int" where
  "charCodeAt s i = of_char (s ! i)"

definition fromCharCode :: "int \<Rightarrow> char" where
  "fromCharCode c = char_of c"

section \<open>Prefix and version\<close>

fun checkPrefixChars :: "int list \<Rightarrow> error + unit" where
  "checkPrefixChars [] = Inr ()"
| "checkPrefixChars (c # cs) =
     (if c < 1 \<or> c > 26 then Inl (Error ''bech32: invalid prefix character'')
      else checkPrefixChars cs)"

definition versionToPrefix :: "int \<Rightarrow> error + string" where
  "versionToPrefix version =
     (case validateInt (Num version) 0 65535 of
        Inl e \<Rightarrow> Inl e
      | Inr _ \<Rightarrow>
          if version = 0 then Inr ''genesis''
          else if js_and version 0x8000 = 0x8000 then Inl (Error ''bech32: invalid version'')
          else
            let a = js_sar (js_and version 0x7C00) 10;
                b = js_sar (js_and version 0x03E0) 5;
                c = js_and version 0x001F
            in case checkPrefixChars [a, b, c] of
                 Inl e \<Rightarrow> Inl e
               | Inr _ \<Rightarrow>
                   Inr [fromCharCode (js_add a 96), fromCharCode (js_add b 96),
                        fromCharCode (js_add c 96)])"

definition prefixToVersion :: "string \<Rightarrow> error + int" where
  "prefixToVersion prefix =
     (if prefix = ''genesis'' then Inr 0
      else case validateStr prefix 3 of
        Inl e \<Rightarrow> Inl e
      | Inr _ \<Rightarrow>
          let a = js_sub (charCodeAt prefix 0) 96;
              b = js_sub (charCodeAt prefix 1) 96;
              c = js_sub (charCodeAt prefix 2) 96
          in case checkPrefixChars [a, b, c] of
               Inl e \<Rightarrow> Inl e
             | Inr _ \<Rightarrow> Inr (js_add (js_add (js_shl a 10) (js_shl b 5)) c))"

text \<open>
  The domain of the mapping, as the specification words it: a prefix letter is one of
  \<open>a\<close> to \<open>z\<close> (character codes 97 to 122), and a version is valid when it
  is below \<open>2 ^ 15\<close> and each of its three 5-bit groups lies between 1 and 26.
\<close>

definition lower :: "char \<Rightarrow> bool" where
  "lower c = (97 \<le> (of_char c :: int) \<and> (of_char c :: int) \<le> 122)"

definition version_groups :: "int \<Rightarrow> int list" where
  "version_groups v = [(v div 1024) mod 32, (v div 32) mod 32, v mod 32]"

definition valid_version :: "int \<Rightarrow> bool" where
  "valid_version v = (0 \<le> v \<and> v < 32768 \<and> list_all (\<lambda>g. 1 \<le> g \<and> g \<le> 26) (version_groups v))"

section \<open>Strings and arrays\<close>

text \<open>
  \<open>charAt\<close> returns the empty string beyond the end, \<open>indexOf\<close> searches for a
  string and returns \<open>-1\<close> when it does not occur, and \<open>replace\<close> with a string
  pattern replaces the first occurrence only.
\<close>

definition charAt :: "string \<Rightarrow> nat \<Rightarrow> string" where
  "charAt s i = (if i < length s then [s ! i] else [])"

fun indexOfFrom :: "string \<Rightarrow> string \<Rightarrow> int \<Rightarrow> int" where
  "indexOfFrom [] pat i = (if pat = [] then i else - 1)"
| "indexOfFrom (x # xs) pat i =
     (if take (length pat) (x # xs) = pat then i else indexOfFrom xs pat (i + 1))"

definition indexOf :: "string \<Rightarrow> string \<Rightarrow> int" where
  "indexOf s pat = indexOfFrom s pat 0"

fun replace :: "string \<Rightarrow> char \<Rightarrow> string \<Rightarrow> string" where
  "replace [] c r = []"
| "replace (x # xs) c r = (if x = c then r @ xs else x # replace xs c r)"

text \<open>
  Arrays of numbers are lists. \<open>arrayNew\<close>, \<open>arraySet\<close> and \<open>slice\<close> are the
  helpers of the library. An assignment \<open>a[k] = v\<close> at the length of the array extends
  it; the library never assigns beyond the length (the filler \<open>0\<close> of \<open>store\<close> stands
  for the holes such an assignment would leave). The optional arguments of
  \<open>arraySet\<close> follow \<open>offset || 0\<close> and \<open>length || b.length\<close>: an omitted or zero
  length means the length of \<open>b\<close>. A read \<open>a[i]\<close> is \<open>at a i\<close>: beyond the length
  JavaScript reads \<open>undefined\<close>, which the bitwise operators and \<open>|| 0\<close> turn into
  \<open>0\<close>; the library reads beyond the length only under these.
\<close>

definition at :: "int list \<Rightarrow> nat \<Rightarrow> int" where
  "at xs i = (if i < length xs then xs ! i else 0)"

definition arrayNew :: "nat \<Rightarrow> int list" where
  "arrayNew n = replicate n 0"

definition store :: "int list \<Rightarrow> nat \<Rightarrow> int \<Rightarrow> int list" where
  "store a k v =
     (if k < length a then a[k := v] else a @ replicate (k - length a) 0 @ [v])"

fun arraySetLoop :: "int list \<Rightarrow> int list \<Rightarrow> nat \<Rightarrow> nat \<Rightarrow> nat \<Rightarrow> int list" where
  "arraySetLoop a b off i 0 = a"
| "arraySetLoop a b off i (Suc n) =
     arraySetLoop (store a (off + i) (at b i)) b off (Suc i) n"

definition arraySet :: "int list \<Rightarrow> int list \<Rightarrow> nat option \<Rightarrow> nat option \<Rightarrow> int list" where
  "arraySet a b offset len =
     (let off = (case offset of None \<Rightarrow> 0 | Some k \<Rightarrow> k);
          l = (case len of None \<Rightarrow> length b | Some k \<Rightarrow> if k = 0 then length b else k)
      in arraySetLoop a b off 0 l)"

text \<open>
  \<open>slice xs b e\<close> is \<open>xs.slice(b, e)\<close>: a negative index counts from the end, and
  both indices are clamped to the array.
\<close>

definition sliceIndex :: "nat \<Rightarrow> int \<Rightarrow> nat" where
  "sliceIndex len k = (if k < 0 then nat (max (int len + k) 0) else min (nat k) len)"

definition slice :: "'a list \<Rightarrow> int \<Rightarrow> int \<Rightarrow> 'a list" where
  "slice xs b e =
     (let k = sliceIndex (length xs) b; fin = sliceIndex (length xs) e
      in take (fin - k) (drop k xs))"

definition arrayConcat :: "int list \<Rightarrow> int list \<Rightarrow> int list" where
  "arrayConcat a b = a @ b"

section \<open>Base64\<close>

definition base64Alphabet :: string where
  "base64Alphabet = ''ABCDEFGHIJKLMNOPQRSTUVWXYZabcdefghijklmnopqrstuvwxyz0123456789+/''"

function checkBase64Chars :: "string \<Rightarrow> nat \<Rightarrow> nat \<Rightarrow> error + unit" where
  "checkBase64Chars charz i l =
     (if i < l then
        (if indexOf base64Alphabet (charAt charz i) = - 1
         then Inl (Error ''base64: invalid character'')
         else checkBase64Chars charz (i + 1) l)
      else Inr ())"
  by pat_completeness auto
termination
  by (relation "measure (\<lambda>(charz, i, l). l - i)") auto

definition checkBase64Alphabet :: "string \<Rightarrow> error + int" where
  "checkBase64Alphabet chars =
     (if length chars mod 4 \<noteq> 0 then Inl (Error ''base64: invalid length'')
      else
        let charz = replace (replace chars CHR ''='' []) CHR ''='' []
        in (case checkBase64Chars charz 0 (length charz) of
              Inl e \<Rightarrow> Inl e
            | Inr _ \<Rightarrow>
                Inr (int (length chars) div 4 * 3 - (int (length chars) - int (length charz)))))"

function base64DecodeLoop :: "string \<Rightarrow> nat \<Rightarrow> nat \<Rightarrow> int list \<Rightarrow> int list" where
  "base64DecodeLoop b64 i l res =
     (if i < l then
        let x0 = js_shl (indexOf base64Alphabet (charAt b64 i)) 18;
            x1 = js_or x0 (js_shl (indexOf base64Alphabet (charAt b64 (i + 1))) 12);
            x2 = js_or x1 (js_shl (indexOf base64Alphabet (charAt b64 (i + 2))) 6);
            x = js_or x2 (indexOf base64Alphabet (charAt b64 (i + 3)))
        in base64DecodeLoop b64 (i + 4) l
             (res @ [js_and (js_sar x 16) 0xff, js_and (js_sar x 8) 0xff, js_and x 0xff])
      else res)"
  by pat_completeness auto
termination
  by (relation "measure (\<lambda>(b64, i, l, res). l - i)") auto

definition base64Decode :: "string \<Rightarrow> error + int list" where
  "base64Decode base64 =
     (case checkBase64Alphabet base64 of
        Inl e \<Rightarrow> Inl e
      | Inr len \<Rightarrow>
          let b64 = replace (replace base64 CHR ''='' ''A'') CHR ''='' ''A''
          in Inr (slice (base64DecodeLoop b64 0 (length base64) []) 0 len))"

text \<open>
  Well-formed Base64 as the specification words it: the length is a multiple of four, and
  the string is characters of the alphabet followed by at most two padding characters.
\<close>

definition wellFormedBase64 :: "string \<Rightarrow> bool" where
  "wellFormedBase64 s =
     (length s mod 4 = 0 \<and>
      (let body = takeWhile (\<lambda>c. c \<noteq> CHR ''='') s; pad = dropWhile (\<lambda>c. c \<noteq> CHR ''='') s
       in list_all (\<lambda>c. c \<in> set base64Alphabet) body \<and> (pad = [] \<or> pad = ''='' \<or> pad = ''=='')))"

section \<open>Integers in bytes\<close>

definition uint16ToBytes :: "int \<Rightarrow> int list" where
  "uint16ToBytes v = [js_and (js_sar v 8) 0xff, js_and v 0xff]"

definition bytesToUint16 :: "int list \<Rightarrow> int" where
  "bytesToUint16 bytes = js_or (js_shl (at bytes 0) 8) (at bytes 1)"

text \<open>
  In \<open>uint64ToBytes\<close> the low word \<open>l\<close> is the value modulo \<open>2 ^ 32\<close>, so the
  difference \<open>value - l\<close> is a multiple of \<open>2 ^ 32\<close> and the division is exact.
\<close>

definition uint64ToBytes :: "int \<Rightarrow> int list" where
  "uint64ToBytes v =
     (let l = js_add (js_mul (js_shr v 24) 16777216) (js_and v 0x00ffffff);
          h = js_sub v l div 4294967296
      in [js_and (js_sar h 24) 0xff, js_and (js_sar h 16) 0xff, js_and (js_sar h 8) 0xff,
          js_and h 0xff,
          js_and (js_sar l 24) 0xff, js_and (js_sar l 16) 0xff, js_and (js_sar l 8) 0xff,
          js_and l 0xff])"

definition bytesToUint64 :: "int list \<Rightarrow> int" where
  "bytesToUint64 bytes =
     (let h = js_add (js_add (js_add (js_mul (at bytes 0) 16777216) (js_shl (at bytes 1) 16))
                (js_shl (at bytes 2) 8)) (at bytes 3);
          l = js_add (js_add (js_add (js_mul (at bytes 4) 16777216) (js_shl (at bytes 5) 16))
                (js_shl (at bytes 6) 8)) (at bytes 7)
      in js_add (js_mul h 4294967296) l)"

section \<open>UTF-8\<close>

text \<open>
  The name of a structure is a JavaScript string whose UTF-16 code units are encoded:
  it is modelled as the list of its code units. \<open>charCodeAt\<close> beyond the end is NaN,
  which \<open>& 0x3ff\<close> turns into \<open>0\<close>.
\<close>

definition encodeUtf8Mb4 :: "int list \<Rightarrow> int \<Rightarrow> int list" where
  "encodeUtf8Mb4 b code =
     b @ [js_or 0xf0 (js_sar code 18),
          js_or 0x80 (js_and (js_sar code 12) 0x3f),
          js_or 0x80 (js_and (js_sar code 6) 0x3f),
          js_or 0x80 (js_and code 0x3f)]"

fun textEncodeLoop :: "int list \<Rightarrow> int list \<Rightarrow> int list" where
  "textEncodeLoop [] b = b"
| "textEncodeLoop (code # text) b =
     (if code < 0x80 then textEncodeLoop text (b @ [code])
      else if code < 0x800 then
        textEncodeLoop text (b @ [js_or 0xc0 (js_sar code 6), js_or 0x80 (js_and code 0x3f)])
      else if code < 0xd800 \<or> code \<ge> 0xe000 then
        textEncodeLoop text
          (b @ [js_or 0xe0 (js_sar code 12), js_or 0x80 (js_and (js_sar code 6) 0x3f),
                js_or 0x80 (js_and code 0x3f)])
      else
        (case text of
           [] \<Rightarrow> encodeUtf8Mb4 b (js_add (js_add 0x10000 (js_shl (js_and code 0x3ff) 10)) 0)
         | next # text' \<Rightarrow>
             textEncodeLoop text'
               (encodeUtf8Mb4 b
                  (js_add (js_add 0x10000 (js_shl (js_and code 0x3ff) 10)) (js_and next 0x3ff)))))"

definition textEncode :: "int list \<Rightarrow> int list" where
  "textEncode text = textEncodeLoop text []"

text \<open>
  \<open>String.fromCharCode\<close> takes its argument modulo \<open>2 ^ 16\<close>. The loop of
  \<open>textDecode\<close> consumes one to four bytes in each round, reading \<open>0\<close> under
  \<open>&\<close> beyond the end.
\<close>

definition fromCharCode16 :: "int \<Rightarrow> int" where
  "fromCharCode16 c = c mod 65536"

function textDecodeLoop :: "int list \<Rightarrow> nat \<Rightarrow> int list \<Rightarrow> int list" where
  "textDecodeLoop bytes i str =
     (if i < length bytes then
        (if at bytes i < 0x80 then
           textDecodeLoop bytes (i + 1) (str @ [fromCharCode16 (at bytes i)])
         else if at bytes i > 0xBF \<and> at bytes i < 0xE0 then
           textDecodeLoop bytes (i + 2)
             (str @ [fromCharCode16
                (js_or (js_shl (js_and (at bytes i) 0x1F) 6) (js_and (at bytes (i + 1)) 0x3F))])
         else if at bytes i > 0xDF \<and> at bytes i < 0xF0 then
           textDecodeLoop bytes (i + 3)
             (str @ [fromCharCode16
                (js_or (js_or (js_shl (js_and (at bytes i) 0x0F) 12)
                          (js_shl (js_and (at bytes (i + 1)) 0x3F) 6))
                   (js_and (at bytes (i + 2)) 0x3F))])
         else
           (let code = js_sub
                  (js_or (js_or (js_or (js_shl (js_and (at bytes i) 0x07) 18)
                                   (js_shl (js_and (at bytes (i + 1)) 0x3F) 12))
                            (js_shl (js_and (at bytes (i + 2)) 0x3F) 6))
                     (js_and (at bytes (i + 3)) 0x3F))
                  0x010000
            in textDecodeLoop bytes (i + 4)
                 (str @ [fromCharCode16 (js_or (js_sar code 10) 0xD800),
                         fromCharCode16 (js_or (js_and code 0x03FF) 0xDC00)])))
      else str)"
  by pat_completeness auto
termination
  by (relation "measure (\<lambda>(bytes, i, str). length bytes - i)") auto

definition textDecode :: "int list \<Rightarrow> int list" where
  "textDecode bytes = textDecodeLoop bytes 0 []"

section \<open>Bech32\<close>

text \<open>
  \<open>toLowerCase\<close> on the characters of a \<open>string\<close> (code units below 256): the
  letters \<open>A\<close> to \<open>Z\<close> and the Latin-1 capitals \<open>0xC0\<close> to \<open>0xDE\<close> other
  than the multiplication sign move up by 32.
\<close>

definition toLowerChar :: "char \<Rightarrow> char" where
  "toLowerChar c =
     (let n = (of_char c :: nat)
      in if (65 \<le> n \<and> n \<le> 90) \<or> (192 \<le> n \<and> n \<le> 222 \<and> n \<noteq> 215)
         then char_of (n + 32) else c)"

definition toLowerCase :: "string \<Rightarrow> string" where
  "toLowerCase s = map toLowerChar s"

fun lastIndexOfLoop :: "string \<Rightarrow> char \<Rightarrow> int \<Rightarrow> int \<Rightarrow> int" where
  "lastIndexOfLoop [] c i found = found"
| "lastIndexOfLoop (x # xs) c i found = lastIndexOfLoop xs c (i + 1) (if x = c then i else found)"

definition lastIndexOf :: "string \<Rightarrow> char \<Rightarrow> int" where
  "lastIndexOf s c = lastIndexOfLoop s c 0 (- 1)"

definition bech32Alphabet :: string where
  "bech32Alphabet = ''qpzry9x8gf2tvdw0s3jn54khce6mua7l''"

fun strToBytes :: "string \<Rightarrow> int list" where
  "strToBytes [] = []"
| "strToBytes (c # str) = indexOf bech32Alphabet [c] # strToBytes str"

fun checkAlphabet :: "string \<Rightarrow> error + unit" where
  "checkAlphabet [] = Inr ()"
| "checkAlphabet (c # chars) =
     (if indexOf bech32Alphabet [c] = - 1 then Inl (Error ''bech32: invalid character'')
      else checkAlphabet chars)"

text \<open>
  \<open>prefixExpand\<close> writes the high bits of the character codes, a zero and the low bits:
  the two assignments of its loop fill the two halves of the array.
\<close>

definition prefixExpand :: "string \<Rightarrow> int list" where
  "prefixExpand prefix =
     map (\<lambda>c. js_sar (of_char c) 5) prefix @ [0] @ map (\<lambda>c. js_and (of_char c) 31) prefix"

definition gen :: "int list" where
  "gen = [0x3b6a57b2, 0x26508e6d, 0x1ea119fa, 0x3d4233dd, 0x2a1462b3]"

fun polyModGen :: "int \<Rightarrow> nat list \<Rightarrow> int \<Rightarrow> int" where
  "polyModGen tp [] chk = chk"
| "polyModGen tp (j # js) chk =
     polyModGen tp js (js_xor chk (if js_and (js_sar tp j) 1 \<noteq> 0 then gen ! j else 0))"

definition polyModStep :: "int \<Rightarrow> int \<Rightarrow> int" where
  "polyModStep chk v =
     (let tp = js_sar chk 25;
          chk1 = js_xor (js_shl (js_and chk 0x1ffffff) 5) v
      in polyModGen tp [0, 1, 2, 3, 4] chk1)"

definition polyMod :: "int list \<Rightarrow> int" where
  "polyMod values = foldl polyModStep 1 values"

definition checksumChars :: "int \<Rightarrow> string" where
  "checksumChars poly =
     concat (map (\<lambda>i. charAt bech32Alphabet (nat (js_and (js_sar poly (5 * (5 - i))) 31)))
       [0, 1, 2, 3, 4, 5])"

definition createChecksum :: "string \<Rightarrow> string \<Rightarrow> string" where
  "createChecksum prefix data =
     (let bytes = strToBytes data;
          pfx = prefixExpand prefix;
          values0 = arrayNew (length pfx + length bytes + 6);
          values1 = arraySet values0 pfx None None;
          values2 = arraySet values1 bytes (Some (length pfx)) None;
          poly = js_xor (polyMod values2) 1
      in checksumChars poly)"

definition verifyChecksum :: "string \<Rightarrow> string \<Rightarrow> error + unit" where
  "verifyChecksum prefix data =
     (let pfx = prefixExpand prefix;
          bytes = strToBytes data;
          values0 = arrayNew (length pfx + length bytes);
          values1 = arraySet values0 pfx None None;
          values2 = arraySet values1 bytes (Some (length pfx)) None;
          poly = polyMod values2
      in if poly \<noteq> 1 then Inl (Error ''bech32: invalid checksum'') else Inr ())"

function emit5 :: "int \<Rightarrow> nat \<Rightarrow> string \<Rightarrow> nat \<times> string" where
  "emit5 val bits result =
     (if bits \<ge> 5 then
        emit5 val (bits - 5)
          (result @ charAt bech32Alphabet (nat (js_and (js_sar val (bits - 5)) 0x1f)))
      else (bits, result))"
  by pat_completeness auto
termination
  by (relation "measure (\<lambda>(val, bits, result). bits)") auto

declare emit5.simps [simp del]

fun convert8to5Loop :: "int list \<Rightarrow> int \<Rightarrow> nat \<Rightarrow> string \<Rightarrow> int \<times> nat \<times> string" where
  "convert8to5Loop [] val bits result = (val, bits, result)"
| "convert8to5Loop (d # data) val bits result =
     (let val' = js_or (js_shl val 8) d;
          (bits', result') = emit5 val' (bits + 8) result
      in convert8to5Loop data val' bits' result')"

definition convert8to5 :: "int list \<Rightarrow> string" where
  "convert8to5 data =
     (let (val, bits, result) = convert8to5Loop data 0 0 []
      in if bits > 0
         then result @ charAt bech32Alphabet (nat (js_and (js_shl val (5 - bits)) 0x1f))
         else result)"

function emit8 :: "int \<Rightarrow> nat \<Rightarrow> int list \<Rightarrow> nat \<times> int list" where
  "emit8 val bits result =
     (if bits \<ge> 8 then
        emit8 val (bits - 8) (result @ [js_and (js_sar val (bits - 8)) 0xff])
      else (bits, result))"
  by pat_completeness auto
termination
  by (relation "measure (\<lambda>(val, bits, result). bits)") auto

declare emit8.simps [simp del]

fun convert5to8Loop :: "int list \<Rightarrow> int \<Rightarrow> nat \<Rightarrow> int list \<Rightarrow> int \<times> nat \<times> int list" where
  "convert5to8Loop [] val bits result = (val, bits, result)"
| "convert5to8Loop (b # bytes) val bits result =
     (let val' = js_or (js_shl val 5) b;
          (bits', result') = emit8 val' (bits + 5) result
      in convert5to8Loop bytes val' bits' result')"

definition convert5to8 :: "string \<Rightarrow> error + int list" where
  "convert5to8 data =
     (let (val, bits, result) = convert5to8Loop (strToBytes data) 0 0 []
      in if bits \<ge> 5 \<or> js_and (js_shl val (8 - bits)) 0xff \<noteq> 0
         then Inl (Error ''bech32: invalid data'')
         else Inr result)"

definition bech32Encode :: "int list \<Rightarrow> error + string" where
  "bech32Encode bytes =
     (case versionToPrefix (js_add (js_shl (at bytes 0) 8) (at bytes 1)) of
        Inl e \<Rightarrow> Inl e
      | Inr prefix \<Rightarrow>
          let data = convert8to5 (drop 2 bytes);
              checksum = createChecksum prefix data
          in Inr (prefix @ ''1'' @ data @ checksum))"

definition bech32Decode :: "string \<Rightarrow> error + int list" where
  "bech32Decode bech32 =
     (if length bech32 \<noteq> 62 \<and> length bech32 \<noteq> 66 then Inl (Error ''bech32: invalid length'')
      else
        let str = toLowerCase bech32;
            sepPos = lastIndexOf str CHR ''1''
        in if sepPos = - 1 then Inl (Error ''bech32: missing separator'')
           else
             let pfx = slice str 0 sepPos in
             (case prefixToVersion pfx of
                Inl e \<Rightarrow> Inl e
              | Inr ver \<Rightarrow>
                  let data = slice str (sepPos + 1) (int (length str)) in
                  (case checkAlphabet data of
                     Inl e \<Rightarrow> Inl e
                   | Inr _ \<Rightarrow>
                       (case verifyChecksum pfx data of
                          Inl e \<Rightarrow> Inl e
                        | Inr _ \<Rightarrow>
                            (case convert5to8 (slice data 0 (- 6)) of
                               Inl e \<Rightarrow> Inl e
                             | Inr payload \<Rightarrow> Inr (arrayConcat (uint16ToBytes ver) payload))))))"

section \<open>SHA-256\<close>

definition sha256K :: "int list" where
  "sha256K =
     [0x428A2F98, 0x71374491, 0xB5C0FBCF, 0xE9B5DBA5, 0x3956C25B, 0x59F111F1, 0x923F82A4, 0xAB1C5ED5,
      0xD807AA98, 0x12835B01, 0x243185BE, 0x550C7DC3, 0x72BE5D74, 0x80DEB1FE, 0x9BDC06A7, 0xC19BF174,
      0xE49B69C1, 0xEFBE4786, 0x0FC19DC6, 0x240CA1CC, 0x2DE92C6F, 0x4A7484AA, 0x5CB0A9DC, 0x76F988DA,
      0x983E5152, 0xA831C66D, 0xB00327C8, 0xBF597FC7, 0xC6E00BF3, 0xD5A79147, 0x06CA6351, 0x14292967,
      0x27B70A85, 0x2E1B2138, 0x4D2C6DFC, 0x53380D13, 0x650A7354, 0x766A0ABB, 0x81C2C92E, 0x92722C85,
      0xA2BFE8A1, 0xA81A664B, 0xC24B8B70, 0xC76C51A3, 0xD192E819, 0xD6990624, 0xF40E3585, 0x106AA070,
      0x19A4C116, 0x1E376C08, 0x2748774C, 0x34B0BCB5, 0x391C0CB3, 0x4ED8AA4A, 0x5B9CCA4F, 0x682E6FF3,
      0x748F82EE, 0x78A5636F, 0x84C87814, 0x8CC70208, 0x90BEFFFA, 0xA4506CEB, 0xBEF9A3F7, 0xC67178F2]"

definition rotr :: "int \<Rightarrow> nat \<Rightarrow> int" where
  "rotr n i = js_or (js_shr n i) (js_shl n (32 - i))"

text \<open>
  \<open>sha256Pad\<close> is the array \<open>bytez\<close> of \<open>sha256PreProcess\<close>: the message,
  zeros up to the padded length, the marker at the length of the message, and the two
  low bytes of the bit length in the last two places.
\<close>

definition sha256Pad :: "int list \<Rightarrow> int list" where
  "sha256Pad message =
     (let n = length message;
          l = n + 8 + (64 - ((n + 8) mod 64));
          bytez0 = map (\<lambda>i. at message i) [0..<l];
          bytez1 = store bytez0 n 0x80;
          bytez2 = store bytez1 (length bytez1 - 2) (js_and (js_shr (js_mul (int n) 8) 8) 0xff);
          bytez3 = store bytez2 (length bytez2 - 1) (js_and (js_mul (int n) 8) 0xff)
      in bytez3)"

definition sha256Word :: "int list \<Rightarrow> nat \<Rightarrow> int" where
  "sha256Word bytez n =
     js_add (js_add (js_add (js_shl (at bytez n) 24) (js_shl (at bytez (n + 1)) 16))
        (js_shl (at bytez (n + 2)) 8)) (at bytez (n + 3))"

definition sha256Chunk :: "int list \<Rightarrow> nat \<Rightarrow> int list" where
  "sha256Chunk bytez i = map (\<lambda>j. sha256Word bytez (i + 4 * j)) [0..<16]"

definition sha256PreProcess :: "int list \<Rightarrow> int list list" where
  "sha256PreProcess message =
     (let bytez = sha256Pad message
      in map (\<lambda>k. sha256Chunk bytez (64 * k)) [0..<(length bytez + 63) div 64])"

text \<open>
  The message schedule: \<open>w[i]\<close> for \<open>i\<close> from 16 to 63 is appended to the 16 words
  of the chunk, so \<open>i\<close> is the length of \<open>w\<close>.
\<close>

fun sha256Schedule :: "nat \<Rightarrow> int list \<Rightarrow> int list" where
  "sha256Schedule 0 w = w"
| "sha256Schedule (Suc n) w =
     (let i = length w;
          s0 = js_xor (js_xor (rotr (at w (i - 15)) 7) (rotr (at w (i - 15)) 18))
                 (js_shr (at w (i - 15)) 3);
          s1 = js_xor (js_xor (rotr (at w (i - 2)) 17) (rotr (at w (i - 2)) 19))
                 (js_shr (at w (i - 2)) 10)
      in sha256Schedule n
           (w @ [js_add (js_add (js_add (at w (i - 16)) s0) (at w (i - 7))) s1]))"

definition sha256Round :: "int list \<Rightarrow> int \<Rightarrow> int \<Rightarrow> int list" where
  "sha256Round a k wi =
     (let S1 = js_xor (js_xor (rotr (at a 4) 6) (rotr (at a 4) 11)) (rotr (at a 4) 25);
          ch = js_xor (js_and (at a 4) (at a 5)) (js_and (js_not (at a 4)) (at a 6));
          t1 = js_add (js_add (js_add (js_add (at a 7) S1) ch) k) wi;
          S0 = js_xor (js_xor (rotr (at a 0) 2) (rotr (at a 0) 13)) (rotr (at a 0) 22);
          ma = js_xor (js_xor (js_and (at a 0) (at a 1)) (js_and (at a 0) (at a 2)))
                 (js_and (at a 1) (at a 2));
          t2 = js_add S0 ma
      in [js_add t1 t2, at a 0, at a 1, at a 2, js_add (at a 3) t1, at a 4, at a 5, at a 6])"

fun sha256Rounds :: "int list \<Rightarrow> int list \<Rightarrow> int list \<Rightarrow> int list" where
  "sha256Rounds a [] w = a"
| "sha256Rounds a (k # ks) w = sha256Rounds (sha256Round a k (at w 0)) ks (drop 1 w)"

definition sha256Block :: "int list \<Rightarrow> int list \<Rightarrow> int list" where
  "sha256Block h w =
     (let a = sha256Rounds (take 8 h) sha256K w
      in map (\<lambda>i. js_or (js_add (at h i) (at a i)) 0) [0..<8])"

definition sha256Init :: "int list" where
  "sha256Init =
     [0x6A09E667, 0xBB67AE85, 0x3C6EF372, 0xA54FF53A, 0x510E527F, 0x9B05688C, 0x1F83D9AB,
      0x5BE0CD19]"

definition sha256Digest :: "int list \<Rightarrow> int list" where
  "sha256Digest h =
     concat (map (\<lambda>i. [js_and (js_shr (at h i) 24) 0xff, js_and (js_shr (at h i) 16) 0xff,
                          js_and (js_shr (at h i) 8) 0xff, js_and (at h i) 0xff]) [0..<8])"

definition sha256 :: "int list \<Rightarrow> int list" where
  "sha256 message =
     sha256Digest
       (foldl (\<lambda>h chunk. sha256Block h (sha256Schedule 48 chunk)) sha256Init
          (sha256PreProcess message))"

section \<open>Keys and addresses\<close>

text \<open>
  Each class holds one private array \<open>_bytes\<close>. A method that mutates the object is
  a sequence of statements, each of which either throws, leaving the object as the
  statements before it have made it, or goes on: \<open>attempt\<close> evaluates an expression
  that may throw, \<open>modify\<close> is an assignment to the array, and \<open>andThen\<close> runs the
  next statement only when the one before has not thrown. A method that returns \<open>this\<close>
  returns \<open>()\<close> here, beside the object.
\<close>

type_synonym ('s, 'a) action = "'s \<Rightarrow> (error + 'a) \<times> 's"

definition throw :: "error \<Rightarrow> ('s, 'a) action" where
  "throw e s = (Inl e, s)"

definition attempt :: "error + 'a \<Rightarrow> ('s, 'a) action" where
  "attempt r s = (r, s)"

definition modify :: "('s \<Rightarrow> 's) \<Rightarrow> ('s, unit) action" where
  "modify f s = (Inr (), f s)"

definition andThen :: "('s, 'a) action \<Rightarrow> ('a \<Rightarrow> ('s, 'b) action) \<Rightarrow> ('s, 'b) action" where
  "andThen m f s = (case m s of (Inl e, s') \<Rightarrow> (Inl e, s') | (Inr x, s') \<Rightarrow> f x s')"

record PublicKey =
  pk_bytes :: "int list"

record SecretKey =
  sk_bytes :: "int list"

record Address =
  adr_bytes :: "int list"

definition newPublicKey :: "int list \<Rightarrow> error + PublicKey" where
  "newPublicKey bytes =
     (if length bytes \<noteq> 32 then Inl (Error ''invalid length'')
      else Inr \<lparr>pk_bytes = arraySet [] bytes None None\<rparr>)"

definition pk_getBytes :: "PublicKey \<Rightarrow> int list" where
  "pk_getBytes k = drop 0 (pk_bytes k)"

definition newSecretKey :: "int list \<Rightarrow> error + SecretKey" where
  "newSecretKey bytes =
     (if length bytes \<noteq> 64 then Inl (Error ''invalid length'')
      else Inr \<lparr>sk_bytes = arraySet [] bytes None None\<rparr>)"

definition sk_getPublicKey :: "SecretKey \<Rightarrow> error + PublicKey" where
  "sk_getPublicKey k = newPublicKey (slice (sk_bytes k) 32 64)"

definition adr_write :: "int list \<Rightarrow> nat option \<Rightarrow> nat option \<Rightarrow> (Address, unit) action" where
  "adr_write b offset len =
     modify (\<lambda>a. a\<lparr>adr_bytes := arraySet (adr_bytes a) b offset len\<rparr>)"

definition adr_setPrefix :: "string \<Rightarrow> (Address, unit) action" where
  "adr_setPrefix prefix =
     andThen (attempt (prefixToVersion prefix)) (\<lambda>v.
     adr_write (uint16ToBytes v) None None)"

definition newAddress :: Address where
  "newAddress = snd (adr_setPrefix ''umi'' \<lparr>adr_bytes = arrayNew 34\<rparr>)"

definition adr_fromBytes :: "int list \<Rightarrow> error + Address" where
  "adr_fromBytes bytes =
     (if length bytes \<noteq> 34 then Inl (Error ''length must be 34 bytes'')
      else Inr (newAddress\<lparr>adr_bytes := arraySet (adr_bytes newAddress) bytes None None\<rparr>))"

definition adr_getBytes :: "Address \<Rightarrow> int list" where
  "adr_getBytes a = drop 0 (adr_bytes a)"

definition adr_getPrefix :: "Address \<Rightarrow> error + string" where
  "adr_getPrefix a = versionToPrefix (bytesToUint16 (slice (adr_bytes a) 0 2))"

definition adr_getPublicKey :: "Address \<Rightarrow> error + PublicKey" where
  "adr_getPublicKey a = newPublicKey (drop 2 (adr_bytes a))"

definition adr_setPublicKey :: "PublicKey \<Rightarrow> (Address, unit) action" where
  "adr_setPublicKey publicKey = adr_write (pk_getBytes publicKey) (Some 2) None"

definition adr_fromBech32 :: "string \<Rightarrow> error + Address" where
  "adr_fromBech32 bech32 =
     (case bech32Decode bech32 of
        Inl e \<Rightarrow> Inl e
      | Inr bytes \<Rightarrow>
          Inr (newAddress\<lparr>adr_bytes := arraySet (adr_bytes newAddress) bytes None None\<rparr>))"

definition adr_getBech32 :: "Address \<Rightarrow> error + string" where
  "adr_getBech32 a = bech32Encode (adr_bytes a)"

section \<open>Transactions\<close>

record Transaction =
  tx_bytes :: "int list"

definition Genesis :: int where "Genesis = 0"
definition Basic :: int where "Basic = 1"
definition CreateStructure :: int where "CreateStructure = 2"
definition UpdateStructure :: int where "UpdateStructure = 3"

definition getVersion :: "Transaction \<Rightarrow> int" where
  "getVersion t = at (tx_bytes t) 0"

fun checkVersionLoop :: "int list \<Rightarrow> int \<Rightarrow> error + unit" where
  "checkVersionLoop [] v = Inl (Error ''invalid version'')"
| "checkVersionLoop (x # versions) v = (if x = v then Inr () else checkVersionLoop versions v)"

definition checkVersion :: "int list \<Rightarrow> Transaction \<Rightarrow> error + unit" where
  "checkVersion versions t = checkVersionLoop versions (getVersion t)"

definition checkVersionStmt :: "int list \<Rightarrow> (Transaction, unit) action" where
  "checkVersionStmt versions t = attempt (checkVersion versions t) t"

definition tx_write :: "int list \<Rightarrow> nat option \<Rightarrow> nat option \<Rightarrow> (Transaction, unit) action" where
  "tx_write b offset len =
     modify (\<lambda>t. t\<lparr>tx_bytes := arraySet (tx_bytes t) b offset len\<rparr>)"

definition tx_store :: "nat \<Rightarrow> int \<Rightarrow> (Transaction, unit) action" where
  "tx_store k v = modify (\<lambda>t. t\<lparr>tx_bytes := store (tx_bytes t) k v\<rparr>)"

definition setVersion :: "jsval \<Rightarrow> (Transaction, unit) action" where
  "setVersion version =
     andThen (attempt (validateInt version 0 7)) (\<lambda>v.
     tx_store 0 v)"

definition newTransaction :: Transaction where
  "newTransaction = snd (setVersion (Num Basic) \<lparr>tx_bytes = arrayNew 150\<rparr>)"

definition tx_fromBytes :: "int list \<Rightarrow> error + Transaction" where
  "tx_fromBytes bytes =
     (if length bytes \<noteq> 150 then Inl (Error ''invalid length'')
      else Inr (newTransaction\<lparr>tx_bytes := arraySet (tx_bytes newTransaction) bytes None None\<rparr>))"

definition tx_getBytes :: "Transaction \<Rightarrow> int list" where
  "tx_getBytes t = drop 0 (tx_bytes t)"

definition getSender :: "Transaction \<Rightarrow> error + Address" where
  "getSender t = adr_fromBytes (slice (tx_bytes t) 1 35)"

definition setSender :: "Address \<Rightarrow> (Transaction, unit) action" where
  "setSender address = tx_write (adr_getBytes address) (Some 1) (Some 34)"

definition getRecipient :: "Transaction \<Rightarrow> error + Address" where
  "getRecipient t =
     (case checkVersion [0, 1, 4, 5, 6, 7] t of
        Inl e \<Rightarrow> Inl e
      | Inr _ \<Rightarrow> adr_fromBytes (slice (tx_bytes t) 35 69))"

definition setRecipient :: "Address \<Rightarrow> (Transaction, unit) action" where
  "setRecipient address =
     andThen (checkVersionStmt [0, 1, 4, 5, 6, 7]) (\<lambda>_.
     tx_write (adr_getBytes address) (Some 35) None)"

definition getValue :: "Transaction \<Rightarrow> error + int" where
  "getValue t =
     (case checkVersion [0, 1] t of
        Inl e \<Rightarrow> Inl e
      | Inr _ \<Rightarrow> Inr (bytesToUint64 (slice (tx_bytes t) 69 77)))"

text \<open>
  The bound \<open>18446744073709551615\<close> is written in the source as a number literal: it
  denotes the nearest double.
\<close>

definition maxUint64 :: int where
  "maxUint64 = fl 18446744073709551615"

definition setValue :: "jsval \<Rightarrow> (Transaction, unit) action" where
  "setValue val =
     andThen (checkVersionStmt [0, 1]) (\<lambda>_.
     andThen (attempt (validateInt val 1 maxUint64)) (\<lambda>v.
     tx_write (uint64ToBytes v) (Some 69) None))"

definition getNonce :: "Transaction \<Rightarrow> int" where
  "getNonce t = bytesToUint64 (slice (tx_bytes t) 77 85)"

definition setNonce :: "jsval \<Rightarrow> (Transaction, unit) action" where
  "setNonce nonce =
     andThen (attempt (validateInt nonce 0 maxUint64)) (\<lambda>v.
     tx_write (uint64ToBytes v) (Some 77) None)"

definition getSignature :: "Transaction \<Rightarrow> int list" where
  "getSignature t = slice (tx_bytes t) 85 149"

definition setSignature :: "int list \<Rightarrow> (Transaction, unit) action" where
  "setSignature signature =
     (if length signature \<noteq> 64 then throw (Error ''invalid length'')
      else tx_write signature (Some 85) None)"

definition getPrefix :: "Transaction \<Rightarrow> error + string" where
  "getPrefix t =
     (case checkVersion [2, 3] t of
        Inl e \<Rightarrow> Inl e
      | Inr _ \<Rightarrow> versionToPrefix (bytesToUint16 (slice (tx_bytes t) 35 37)))"

definition setPrefix :: "string \<Rightarrow> (Transaction, unit) action" where
  "setPrefix prefix =
     andThen (checkVersionStmt [2, 3]) (\<lambda>_.
     andThen (attempt (prefixToVersion prefix)) (\<lambda>v.
     tx_write (uint16ToBytes v) (Some 35) None))"

definition getName :: "Transaction \<Rightarrow> error + int list" where
  "getName t =
     (case checkVersion [2, 3] t of
        Inl e \<Rightarrow> Inl e
      | Inr _ \<Rightarrow>
          if at (tx_bytes t) 41 > 35 then Inl (Error ''invalid length'')
          else Inr (textDecode (slice (tx_bytes t) 42 (js_add 42 (at (tx_bytes t) 41)))))"

definition setName :: "int list \<Rightarrow> (Transaction, unit) action" where
  "setName name =
     andThen (checkVersionStmt [2, 3]) (\<lambda>_.
     let bytes = textEncode name in
     if length bytes > 35 then throw (Error ''name is too long'')
     else
       andThen (tx_write (arrayNew 36) (Some 41) None) (\<lambda>_.
       andThen (tx_write bytes (Some 42) None) (\<lambda>_.
       tx_store 41 (int (length bytes)))))"

definition getProfitPercent :: "Transaction \<Rightarrow> error + int" where
  "getProfitPercent t =
     (case checkVersion [2, 3] t of
        Inl e \<Rightarrow> Inl e
      | Inr _ \<Rightarrow> Inr (bytesToUint16 (slice (tx_bytes t) 37 39)))"

definition setProfitPercent :: "jsval \<Rightarrow> (Transaction, unit) action" where
  "setProfitPercent percent =
     andThen (checkVersionStmt [2, 3]) (\<lambda>_.
     andThen (attempt (validateInt percent 100 500)) (\<lambda>v.
     tx_write (uint16ToBytes v) (Some 37) None))"

definition getFeePercent :: "Transaction \<Rightarrow> error + int" where
  "getFeePercent t =
     (case checkVersion [2, 3] t of
        Inl e \<Rightarrow> Inl e
      | Inr _ \<Rightarrow> Inr (bytesToUint16 (slice (tx_bytes t) 39 41)))"

definition setFeePercent :: "jsval \<Rightarrow> (Transaction, unit) action" where
  "setFeePercent percent =
     andThen (checkVersionStmt [2, 3]) (\<lambda>_.
     andThen (attempt (validateInt percent 0 2000)) (\<lambda>v.
     tx_write (uint16ToBytes v) (Some 39) None))"

text \<open>
  The error of \<open>checkVersion\<close>, the version code stored in the prefix field of a
  structure transaction, and the transactions used as examples: a fresh transaction
  switched to another version, and the transactions that \<open>Transaction.fromBytes\<close>
  builds from two records of version \<open>CreateStructure\<close>, one whose name length
  byte (offset 41) is 36, one whose prefix field (offsets 35 and 36) holds the bytes
  128 and 0, the code \<open>0x8000\<close>.
\<close>

definition invalidVersion :: error where
  "invalidVersion = Error ''invalid version''"

definition storedPrefix :: "Transaction \<Rightarrow> int" where
  "storedPrefix t = bytesToUint16 (slice (tx_bytes t) 35 37)"

definition structureTransaction :: Transaction where
  "structureTransaction = snd (setVersion (Num CreateStructure) newTransaction)"

definition longNameBytes :: "int list" where
  "longNameBytes = 2 # replicate 40 0 @ 36 # replicate 108 0"

definition longNameTransaction :: Transaction where
  "longNameTransaction = \<lparr>tx_bytes = longNameBytes\<rparr>"

definition highPrefixBytes :: "int list" where
  "highPrefixBytes = 2 # replicate 34 0 @ 128 # replicate 114 0"

definition highPrefixTransaction :: Transaction where
  "highPrefixTransaction = \<lparr>tx_bytes = highPrefixBytes\<rparr>"

definition versionTransaction :: "int \<Rightarrow> Transaction" where
  "versionTransaction v = snd (setVersion (Num v) newTransaction)"

section \<open>Signing and sequences of calls\<close>

text \<open>
  \<open>sign(secretKey)\<close> is
  \<open>this.setNonce(new Date().getTime()).setSignature(secretKey.sign(this._bytes.slice(0, 85)))\<close>:
  the nonce is set first, then the first 85 bytes are signed and the signature is
  stored. The value of the clock and the function \<open>secretKey.sign\<close> are arguments
  here, so that what is stated of \<open>tx_sign\<close> holds whatever the clock shows and
  whatever bytes the signing function returns.
\<close>

definition tx_sign :: "jsval \<Rightarrow> (int list \<Rightarrow> int list) \<Rightarrow> (Transaction, unit) action" where
  "tx_sign now signer =
     andThen (setNonce now) (\<lambda>_ t.
     setSignature (signer (slice (tx_bytes t) 0 85)) t)"

text \<open>
  A call of a setter or of \<open>sign\<close> on a transaction, and a sequence of such calls on
  the same object: a call that throws leaves the object to the next call as it is at
  the throw.
\<close>

datatype call =
    SetVersion jsval
  | SetSender Address
  | SetRecipient Address
  | SetValue jsval
  | SetNonce jsval
  | SetSignature "int list"
  | SetPrefix string
  | SetName "int list"
  | SetProfitPercent jsval
  | SetFeePercent jsval
  | Sign jsval "int list \<Rightarrow> int list"

fun perform :: "call \<Rightarrow> (Transaction, unit) action" where
  "perform (SetVersion v) = setVersion v"
| "perform (SetSender a) = setSender a"
| "perform (SetRecipient a) = setRecipient a"
| "perform (SetValue v) = setValue v"
| "perform (SetNonce v) = setNonce v"
| "perform (SetSignature s) = setSignature s"
| "perform (SetPrefix p) = setPrefix p"
| "perform (SetName n) = setName n"
| "perform (SetProfitPercent v) = setProfitPercent v"
| "perform (SetFeePercent v) = setFeePercent v"
| "perform (Sign now signer) = tx_sign now signer"

definition runCalls :: "call list \<Rightarrow> Transaction \<Rightarrow> Transaction" where
  "runCalls calls t = foldl (\<lambda>t c. snd (perform c t)) t calls"

text \<open>
  The addresses that the library builds have 34 bytes, or up to 37 when
  \<open>Address.fromBech32\<close> decodes a longer string; \<open>addressFits\<close> is the bound under
  which \<open>setRecipient\<close>, which copies the whole address to offset 35, stays below
  offset 85.
\<close>

definition addressFits :: "Address \<Rightarrow> bool" where
  "addressFits a = (length (adr_bytes a) \<le> 50)"

fun callFits :: "call \<Rightarrow> bool" where
  "callFits (SetRecipient a) = addressFits a"
| "callFits _ = True"

text \<open>
  A sequence of calls used as an example: some succeed, and some throw (the first
  \<open>setRecipient\<close> and \<open>setValue\<close>, on a transaction of version \<open>CreateStructure\<close>,
  and the \<open>setSignature\<close> of three bytes).
\<close>

definition exampleCalls :: "call list" where
  "exampleCalls =
     [SetVersion (Num 2), SetSender newAddress, SetRecipient newAddress, SetValue (Num 42),
      SetNonce (Num 7), SetSignature (replicate 64 255), SetSignature [1, 2, 3],
      SetPrefix ''abc'', SetName [72, 105], SetProfitPercent (Num 100), SetFeePercent (Num 0),
      Sign (Num 1700000000000) (\<lambda>message. replicate 64 255),
      SetVersion (Num 1), SetRecipient newAddress, SetValue (Num 42)]"

section \<open>Numbers as digit lists\<close>

text \<open>
  The value of a big-endian digit list and the big-endian digits of a number, used to
  state what the two regrouping loops of the Bech32 codec compute; \<open>bech32Char\<close> is
  the character of a 5-bit value, and \<open>byte\<close> says that a number is a byte.
\<close>

definition be_val :: "int \<Rightarrow> int list \<Rightarrow> int" where
  "be_val b ds = foldl (\<lambda>a d. a * b + d) 0 ds"

fun be_digits :: "int \<Rightarrow> nat \<Rightarrow> int \<Rightarrow> int list" where
  "be_digits b 0 x = []"
| "be_digits b (Suc n) x = be_digits b n (x div b) @ [x mod b]"

definition bech32Char :: "int \<Rightarrow> char" where
  "bech32Char k = bech32Alphabet ! nat k"

definition byte :: "int \<Rightarrow> bool" where
  "byte x = (0 \<le> x \<and> x < 256)"

text \<open>
  The version of an address: its first two bytes, big-endian.
\<close>

definition addressVersion :: "Address \<Rightarrow> int" where
  "addressVersion a = at (adr_bytes a) 0 * 256 + at (adr_bytes a) 1"

text \<open>
  \<open>constructAddress prefix key\<close> is
  \<open>new Address().setPublicKey(new PublicKey(key)).setPrefix(prefix)\<close>.
\<close>

definition constructAddress :: "string \<Rightarrow> int list \<Rightarrow> error + Address" where
  "constructAddress prefix key =
     (case newPublicKey key of
        Inl e \<Rightarrow> Inl e
      | Inr k \<Rightarrow>
          (case adr_setPrefix prefix (snd (adr_setPublicKey k newAddress)) of
             (Inl e, _) \<Rightarrow> Inl e
           | (Inr _, a) \<Rightarrow> Inr a))"

section \<open>Facts about the operators\<close>

lemma fl_id: "\<bar>n\<bar> \<le> 2 ^ 53 \<Longrightarrow> fl n = n"
  by (simp add: fl_def Let_def)

lemma toInt32_id: "- (2 ^ 31) \<le> n \<Longrightarrow> n < 2 ^ 31 \<Longrightarrow> toInt32 n = n"
  unfolding toInt32_def by (simp add: signed_take_bit_int_eq_self)

lemma toInt32_nonneg: "0 \<le> n \<Longrightarrow> n < 2 ^ 31 \<Longrightarrow> toInt32 n = n"
  by (rule toInt32_id) auto

lemma and_field: "drop_bit k ((v::int) AND push_bit k (mask n)) = (v div 2 ^ k) mod 2 ^ n"
proof -
  have "drop_bit k (v AND push_bit k (mask n)) = drop_bit k v AND mask n"
    by (simp add: bit_eq_iff bit_simps)
  then show ?thesis
    by (simp add: drop_bit_eq_div take_bit_eq_mod flip: take_bit_eq_mask)
qed

lemma c7C00: "(0x7C00::int) = push_bit 10 (mask 5)"
  by (simp add: mask_eq_exp_minus_1)

lemma c03E0: "(0x03E0::int) = push_bit 5 (mask 5)"
  by (simp add: mask_eq_exp_minus_1)

lemma c001F: "(0x001F::int) = push_bit 0 (mask 5)"
  by (simp add: mask_eq_exp_minus_1)

lemma c8000: "(0x8000::int) = push_bit 15 (mask 1)"
  by (simp add: mask_eq_exp_minus_1)

lemma js_and_nonneg:
  "0 \<le> v \<Longrightarrow> v < 2 ^ 31 \<Longrightarrow> 0 \<le> m \<Longrightarrow> m < 2 ^ 31 \<Longrightarrow> js_and v m = v AND m"
  by (simp add: js_and_def toInt32_nonneg)

lemma and_bounds: "0 \<le> (m::int) \<Longrightarrow> 0 \<le> v AND m \<and> v AND m \<le> m"
  by (simp add: AND_upper2)

lemma js_sar_nonneg: "0 \<le> x \<Longrightarrow> x < 2 ^ 31 \<Longrightarrow> k < 32 \<Longrightarrow> js_sar x k = x div 2 ^ k"
  by (simp add: js_sar_def toInt32_nonneg drop_bit_eq_div)

lemma version_field:
  assumes "0 \<le> v" "v < 2 ^ 31" "k < 32" "push_bit k (mask n) < (2 ^ 31 :: int)"
  shows "js_sar (js_and v (push_bit k (mask n))) k = (v div 2 ^ k) mod 2 ^ n"
proof -
  let ?m = "push_bit k (mask n) :: int"
  have m0: "0 \<le> ?m" by simp
  have e: "js_and v ?m = v AND ?m"
    using assms m0 by (intro js_and_nonneg) auto
  have r: "0 \<le> v AND ?m \<and> v AND ?m \<le> ?m" using m0 by (rule and_bounds)
  then have "v AND ?m < 2 ^ 31" using assms(4) by linarith
  then have "js_sar (v AND ?m) k = (v AND ?m) div 2 ^ k"
    using r assms(3) by (intro js_sar_nonneg) auto
  then show ?thesis using e and_field [of k v n] by (simp add: drop_bit_eq_div)
qed

lemma getA: "0 \<le> v \<Longrightarrow> v < 2 ^ 31 \<Longrightarrow> js_sar (js_and v 0x7C00) 10 = (v div 1024) mod 32"
  using version_field [of v 10 5] by (simp add: mask_eq_exp_minus_1)

lemma getB0: "0 \<le> v \<Longrightarrow> v < 2 ^ 31 \<Longrightarrow> js_sar (js_and v (push_bit 5 (mask 5))) 5 = (v div 2 ^ 5) mod 2 ^ 5"
  by (rule version_field) (simp_all add: mask_eq_exp_minus_1)

lemma getB: "0 \<le> v \<Longrightarrow> v < 2 ^ 31 \<Longrightarrow> js_sar (js_and v 0x03E0) 5 = (v div 32) mod 32"
  using getB0 [of v] unfolding c03E0 [symmetric] by simp

lemma getC: "0 \<le> v \<Longrightarrow> v < 2 ^ 31 \<Longrightarrow> js_and v 0x001F = v mod 32"
  using version_field [of v 0 5] by (simp add: mask_eq_exp_minus_1 js_sar_def js_and_def toInt32_nonneg)

lemma and_exp_cases: "(v::int) AND 2 ^ n = (if bit v n then 2 ^ n else 0)"
  by (rule bit_eqI) (auto simp add: bit_simps)

lemma and_bit15: "((v::int) AND 0x8000 = 0x8000) = bit v 15"
  using and_exp_cases [of v 15] by (simp split: if_splits)

lemma bit15: "0 \<le> v \<Longrightarrow> v < 65536 \<Longrightarrow> bit (v::int) 15 = (32768 \<le> v)"
proof (cases "32768 \<le> v")
  case True
  assume a: "0 \<le> v" "v < 65536"
  have "v div 32768 = 1"
    by (rule int_div_pos_eq [where r = "v - 32768"]) (use a True in simp_all)
  then show ?thesis using True by (simp add: bit_iff_odd)
next
  case False
  assume a: "0 \<le> v" "v < 65536"
  then have "v div 32768 = 0" using False by (intro div_pos_pos_trivial) simp_all
  then show ?thesis using False by (simp add: bit_iff_odd)
qed

lemma getH: "0 \<le> v \<Longrightarrow> v < 65536 \<Longrightarrow> (js_and v 0x8000 = 0x8000) = (32768 \<le> v)"
proof -
  assume a: "0 \<le> v" "v < 65536"
  have e: "js_and v 0x8000 = v AND 0x8000"
    by (rule js_and_nonneg) (use a in simp_all)
  show ?thesis unfolding e and_bit15 by (rule bit15 [OF a])
qed

lemma js_shl_small: "0 \<le> a \<Longrightarrow> a * 2 ^ k < 2 ^ 31 \<Longrightarrow> k < 32 \<Longrightarrow> js_shl a k = a * 2 ^ k"
proof -
  assume a: "0 \<le> a" "a * 2 ^ k < 2 ^ 31" "k < 32"
  have "a \<le> a * 2 ^ k" using a(1) by (simp add: mult_le_cancel_left1)
  then have "toInt32 a = a" using a by (intro toInt32_nonneg) auto
  then show ?thesis using a by (simp add: js_shl_def push_bit_eq_mult toInt32_nonneg)
qed

lemmas stmt_defs = andThen_def throw_def attempt_def modify_def checkVersionStmt_def
  tx_write_def tx_store_def adr_write_def

section \<open>The prefix and version mapping\<close>

lemma checkPrefixChars3:
  "checkPrefixChars [a, b, c] = Inr () \<longleftrightarrow> (1 \<le> a \<and> a \<le> 26) \<and> (1 \<le> b \<and> b \<le> 26) \<and> (1 \<le> c \<and> c \<le> 26)"
  by auto

lemma checkPrefixChars_cases:
  "checkPrefixChars cs = Inr () \<or> checkPrefixChars cs = Inl (Error ''bech32: invalid prefix character'')"
  by (induction cs) auto

lemma pack_version:
  assumes "1 \<le> a" "a \<le> 26" "1 \<le> b" "b \<le> 26" "1 \<le> c" "c \<le> 26"
  shows "js_add (js_add (js_shl a 10) (js_shl b 5)) c = a * 1024 + b * 32 + c"
proof -
  have a: "js_shl a 10 = a * 1024" using js_shl_small [of a 10] assms by simp
  have b: "js_shl b 5 = b * 32" using js_shl_small [of b 5] assms by simp
  show ?thesis unfolding a b js_add_def using assms by (simp add: fl_id)
qed

lemma unpack_version:
  fixes a b c :: int
  assumes "1 \<le> a" "a \<le> 26" "1 \<le> b" "b \<le> 26" "1 \<le> c" "c \<le> 26"
  defines "v \<equiv> a * 1024 + b * 32 + c"
  shows "(v div 1024) mod 32 = a" "(v div 32) mod 32 = b" "v mod 32 = c" "0 < v" "v < 32768"
proof -
  have d1: "v div 1024 = a"
    by (rule int_div_pos_eq [where r = "b * 32 + c"]) (use assms in simp_all)
  have d2: "v div 32 = a * 32 + b"
    by (rule int_div_pos_eq [where r = c]) (use assms in simp_all)
  show "(v div 1024) mod 32 = a" unfolding d1 using assms by simp
  show "(v div 32) mod 32 = b" unfolding d2 using assms by simp
  show "v mod 32 = c"
    by (rule int_mod_pos_eq [where q = "a * 32 + b"]) (use assms in simp_all)
  show "0 < v" "v < 32768" using assms by simp_all
qed

lemma repack_version:
  fixes v :: int
  shows "(v div 1024) * 1024 + ((v div 32) mod 32) * 32 + v mod 32 = v"
proof -
  define w where "w = v div 32"
  have e: "v div 1024 = w div 32" by (simp add: w_def div_mult2_eq [symmetric])
  have k: "w div 32 * 32 + w mod 32 = w" by simp
  have "w div 32 * 1024 + w mod 32 * 32 = (w div 32 * 32 + w mod 32) * 32" by (simp only: distrib_right mult.assoc)
  then have "w div 32 * 1024 + w mod 32 * 32 = w * 32" by (simp only: k)
  moreover have "w * 32 + v mod 32 = v" by (simp add: w_def)
  ultimately show ?thesis unfolding e w_def [symmetric] by simp
qed

lemma lower_code: "lower c \<Longrightarrow> 1 \<le> js_sub (of_char c) 96 \<and> js_sub (of_char c) 96 \<le> 26"
  by (simp add: lower_def js_sub_def fl_id)

lemma of_char_bounds: "0 \<le> (of_char c :: int) \<and> (of_char c :: int) < 256"
proof -
  have "(of_char c :: int) = int (of_char c)" by (simp add: of_nat_of_char)
  moreover have "of_char c < (256::nat)" by simp
  ultimately show ?thesis by linarith
qed

lemma js_sub_char: "js_sub (of_char c) 96 = of_char c - 96"
proof -
  have "\<bar>of_char c - (96::int)\<bar> \<le> 2 ^ 53" using of_char_bounds [of c] by (simp add: abs_le_iff)
  then show ?thesis by (simp add: js_sub_def fl_id)
qed

lemma lower_iff: "lower c \<longleftrightarrow> 1 \<le> js_sub (of_char c) 96 \<and> js_sub (of_char c) 96 \<le> 26"
  unfolding js_sub_char by (auto simp add: lower_def)

lemma prefixToVersion_letters:
  assumes "lower x" "lower y" "lower z"
  shows "prefixToVersion [x, y, z] =
    Inr ((of_char x - 96) * 1024 + (of_char y - 96) * 32 + (of_char z - 96))"
proof -
  have g: "[x, y, z] \<noteq> ''genesis''" by simp
  have r: "1 \<le> of_char x - (96::int)" "of_char x - (96::int) \<le> 26"
    "1 \<le> of_char y - (96::int)" "of_char y - (96::int) \<le> 26"
    "1 \<le> of_char z - (96::int)" "of_char z - (96::int) \<le> 26"
    using assms by (simp_all add: lower_def)
  show ?thesis
    using r by (simp add: prefixToVersion_def validateStr_def charCodeAt_def js_sub_char
        pack_version del: checkPrefixChars.simps add: checkPrefixChars3 [THEN iffD2])
qed

lemma versionToPrefix_groups:
  assumes "0 < v" "v < 32768"
  shows "versionToPrefix v =
    (case checkPrefixChars (version_groups v) of
       Inl e \<Rightarrow> Inl e
     | Inr _ \<Rightarrow>
         Inr [fromCharCode (js_add ((v div 1024) mod 32) 96),
              fromCharCode (js_add ((v div 32) mod 32) 96),
              fromCharCode (js_add (v mod 32) 96)])"
proof -
  have v: "0 \<le> v" "v < 65536" "v < 2 ^ 31" "v \<noteq> 0" "\<not> 32768 \<le> v"
    "\<not> v < 0" "\<not> 65535 < v"
    using assms by simp_all
  note f = getA [OF v(1) v(3)] getB [OF v(1) v(3)] getC [OF v(1) v(3)] getH [OF v(1) v(2)]
  show ?thesis
    unfolding versionToPrefix_def version_groups_def Let_def f
    by (simp add: v del: checkPrefixChars.simps)
qed

lemma fromCharCode_group:
  assumes "1 \<le> g" "g \<le> 26"
  shows "fromCharCode (js_add g 96) = char_of (g + 96)" "lower (char_of (g + 96))"
    "of_char (char_of (g + 96)) - 96 = g"
proof -
  show "fromCharCode (js_add g 96) = char_of (g + 96)"
    using assms by (simp add: fromCharCode_def js_add_def fl_id)
  have m: "(g + 96) mod 256 = g + 96" using assms by simp
  show "lower (char_of (g + 96))" unfolding lower_def of_char_of m using assms by simp
  show "of_char (char_of (g + 96)) - 96 = g" unfolding of_char_of m by simp
qed

lemma versionToPrefix_valid:
  assumes "valid_version v"
  shows "\<exists>p. versionToPrefix v = Inr p \<and> prefixToVersion p = Inr v \<and> length p = 3 \<and> list_all lower p"
proof -
  define a b c where "a = (v div 1024) mod 32" and "b = (v div 32) mod 32" and "c = v mod 32"
  have g: "version_groups v = [a, b, c]" by (simp add: version_groups_def a_def b_def c_def)
  have r: "1 \<le> a" "a \<le> 26" "1 \<le> b" "b \<le> 26" "1 \<le> c" "c \<le> 26" "0 \<le> v" "v < 32768"
    using assms by (simp_all add: valid_version_def g)
  have "v \<noteq> 0" using r by (auto simp add: c_def)
  then have pos: "0 < v" using r by simp
  have small: "v div 1024 = a"
  proof -
    have "v div 1024 < 32" using r by simp
    moreover have "0 \<le> v div 1024" using r by simp
    ultimately show ?thesis by (simp add: a_def)
  qed
  have vv: "a * 1024 + b * 32 + c = v"
    using repack_version [of v] by (simp add: small b_def c_def)
  let ?p = "[char_of (a + 96), char_of (b + 96), char_of (c + 96)]"
  have 1: "versionToPrefix v = Inr ?p"
    using r by (simp add: versionToPrefix_groups [OF pos] g fromCharCode_group(1)
        a_def [symmetric] b_def [symmetric] c_def [symmetric])
  have 2: "prefixToVersion ?p = Inr v"
    using r by (simp add: prefixToVersion_letters fromCharCode_group vv)
  have 3: "list_all lower ?p" using r by (simp add: fromCharCode_group(2))
  show ?thesis using 1 2 3 by simp
qed

lemma prefixToVersion_valid:
  assumes "length p = 3" "list_all lower p"
  shows "\<exists>v. prefixToVersion p = Inr v \<and> versionToPrefix v = Inr p \<and> valid_version v"
proof -
  obtain x y z where p: "p = [x, y, z]"
    using assms(1) by (auto simp add: length_Suc_conv numeral_3_eq_3)
  have l: "lower x" "lower y" "lower z" using assms(2) by (simp_all add: p)
  define a b c where "a = of_char x - (96::int)" and "b = of_char y - (96::int)"
    and "c = of_char z - (96::int)"
  have r: "1 \<le> a" "a \<le> 26" "1 \<le> b" "b \<le> 26" "1 \<le> c" "c \<le> 26"
    using l by (simp_all add: lower_def a_def b_def c_def)
  define v where "v = a * 1024 + b * 32 + c"
  note u = unpack_version [OF r, folded v_def]
  have 1: "prefixToVersion p = Inr v"
    using l by (simp add: p prefixToVersion_letters v_def a_def b_def c_def)
  have g: "version_groups v = [a, b, c]" by (simp add: version_groups_def u)
  have 2: "versionToPrefix v = Inr p"
    using r by (simp add: versionToPrefix_groups [OF u(4) u(5)] g u fromCharCode_group(1))
      (simp add: p a_def b_def c_def)
  have 3: "valid_version v" using r u by (simp add: valid_version_def g)
  show ?thesis using 1 2 3 by simp
qed

lemma prefixToVersion_reject:
  assumes "p \<noteq> ''genesis''" "\<not> (length p = 3 \<and> list_all lower p)"
  shows "isl (prefixToVersion p)"
proof (cases "length p = 3")
  case False
  then show ?thesis using assms(1) by (simp add: prefixToVersion_def validateStr_def)
next
  case True
  then obtain x y z where p: "p = [x, y, z]"
    by (auto simp add: length_Suc_conv numeral_3_eq_3)
  let ?cs = "[js_sub (of_char x) 96, js_sub (of_char y) 96, js_sub (of_char z) 96]"
  have "\<not> (lower x \<and> lower y \<and> lower z)" using assms(2) True by (simp add: p)
  then have "checkPrefixChars ?cs \<noteq> Inr ()"
    unfolding checkPrefixChars3 lower_iff by blast
  then have "checkPrefixChars ?cs = Inl (Error ''bech32: invalid prefix character'')"
    using checkPrefixChars_cases [of ?cs] by blast
  then show ?thesis
    by (simp add: p prefixToVersion_def validateStr_def charCodeAt_def Let_def
        del: checkPrefixChars.simps)
qed

lemma versionToPrefix_reject:
  assumes "v \<noteq> 0" "\<not> valid_version v"
  shows "isl (versionToPrefix v)"
proof -
  consider "v < 0 \<or> 65535 < v" | "32768 \<le> v" "v \<le> 65535" | "0 < v" "v < 32768"
    using assms(1) by linarith
  then show ?thesis
  proof cases
    case 1
    then show ?thesis by (auto simp add: versionToPrefix_def)
  next
    case 2
    then have "js_and v 0x8000 = 0x8000" using getH [of v] by simp
    then show ?thesis using 2 by (simp add: versionToPrefix_def)
  next
    case 3
    let ?cs = "[(v div 1024) mod 32, (v div 32) mod 32, v mod 32]"
    have "checkPrefixChars ?cs \<noteq> Inr ()"
      unfolding checkPrefixChars3 using assms(2) 3 by (simp add: valid_version_def version_groups_def)
    then have "checkPrefixChars ?cs = Inl (Error ''bech32: invalid prefix character'')"
      using checkPrefixChars_cases [of ?cs] by blast
    then show ?thesis
      by (simp add: versionToPrefix_groups [OF 3] version_groups_def del: checkPrefixChars.simps)
  qed
qed

lemma genesis_version: "prefixToVersion ''genesis'' = Inr 0" "versionToPrefix 0 = Inr ''genesis''"
  by (simp_all add: prefixToVersion_def versionToPrefix_def)

text \<open>
  C6: on three-letter prefixes of letters \<open>a\<close> to \<open>z\<close> and on valid versions,
  \<open>prefixToVersion\<close> and \<open>versionToPrefix\<close> are inverse to each other; the prefix
  \<open>genesis\<close> and the version 0 are mapped to each other; every other prefix and every
  other version (a group outside 1 to 26, the high bit set, or outside 16 bits) is
  rejected with an error.
\<close>

theorem prefix_version_bijection:
  "(length p = 3 \<and> list_all lower p \<longrightarrow>
      (\<exists>v. prefixToVersion p = Inr v \<and> versionToPrefix v = Inr p \<and> valid_version v))
   \<and> (valid_version v \<longrightarrow>
      (\<exists>p. versionToPrefix v = Inr p \<and> prefixToVersion p = Inr v
         \<and> length p = 3 \<and> list_all lower p))
   \<and> prefixToVersion ''genesis'' = Inr 0
   \<and> versionToPrefix 0 = Inr ''genesis''
   \<and> (p \<noteq> ''genesis'' \<and> \<not> (length p = 3 \<and> list_all lower p) \<longrightarrow> isl (prefixToVersion p))
   \<and> (v \<noteq> 0 \<and> \<not> valid_version v \<longrightarrow> isl (versionToPrefix v))"
  using prefixToVersion_valid [of p] versionToPrefix_valid [of v] genesis_version
    prefixToVersion_reject [of p] versionToPrefix_reject [of v]
  by blast

theorem prefix_version_bijection_witness:
  "prefixToVersion ''umi'' = Inr 21929 \<and> versionToPrefix 21929 = Inr ''umi''
   \<and> valid_version 21929 \<and> length ''umi'' = 3 \<and> list_all lower ''umi''
   \<and> ''1ab'' \<noteq> ''genesis'' \<and> \<not> (length ''1ab'' = 3 \<and> list_all lower ''1ab'')
   \<and> isl (prefixToVersion ''1ab'')
   \<and> (27::int) \<noteq> 0 \<and> \<not> valid_version 27 \<and> isl (versionToPrefix 27)"
proof -
  have a: "length ''umi'' = 3 \<and> list_all lower ''umi''" by (simp add: lower_def)
  have b: "valid_version 21929" by (simp add: valid_version_def version_groups_def)
  have c: "''1ab'' \<noteq> ''genesis'' \<and> \<not> (length ''1ab'' = 3 \<and> list_all lower ''1ab'')"
    by (simp add: lower_def)
  have d: "(27::int) \<noteq> 0 \<and> \<not> valid_version 27"
    by (simp add: valid_version_def version_groups_def)
  have e: "prefixToVersion ''umi'' = Inr 21929"
    using a by (simp add: prefixToVersion_letters)
  show ?thesis
    using prefix_version_bijection [of "''umi''" 21929] prefix_version_bijection [of "''1ab''" 27]
      a b c d e
    by auto
qed

section \<open>Base64 decoding of a misplaced padding character\<close>

text \<open>
  C9 (every string that is not well-formed Base64 makes \<open>base64Decode\<close> raise an
  error): the string \<open>A=AA\<close> has a padding character that is followed by alphabet
  characters, so it is not well-formed, and \<open>base64Decode\<close> returns the two bytes
  \<open>0, 0\<close> for it instead of raising an error. \<open>checkBase64Alphabet\<close> removes the
  first two padding characters wherever they stand before it checks the alphabet.
\<close>

theorem base64Decode_misplaced_padding:
  "\<not> wellFormedBase64 ''A=AA'' \<and> base64Decode ''A=AA'' = Inr [0, 0]"
  by code_simp

section \<open>Transactions: version gating\<close>

text \<open>
  Each setter, unfolded into the case analysis of its statements. These equations are
  also the ones used to evaluate a setter on concrete arguments.
\<close>

lemma setVersion_unfold [code]:
  "setVersion version t =
     (case validateInt version 0 7 of
        Inl e \<Rightarrow> (Inl e, t)
      | Inr v \<Rightarrow> (Inr (), t\<lparr>tx_bytes := store (tx_bytes t) 0 v\<rparr>))"
  by (simp add: setVersion_def stmt_defs split: sum.splits)

lemma setSender_unfold [code]:
  "setSender address t =
     (Inr (), t\<lparr>tx_bytes := arraySet (tx_bytes t) (adr_getBytes address) (Some 1) (Some 34)\<rparr>)"
  by (simp add: setSender_def stmt_defs)

lemma setRecipient_unfold [code]:
  "setRecipient address t =
     (case checkVersion [0, 1, 4, 5, 6, 7] t of
        Inl e \<Rightarrow> (Inl e, t)
      | Inr _ \<Rightarrow>
          (Inr (), t\<lparr>tx_bytes := arraySet (tx_bytes t) (adr_getBytes address) (Some 35) None\<rparr>))"
  by (simp add: setRecipient_def stmt_defs split: sum.splits)

lemma setValue_unfold [code]:
  "setValue val t =
     (case checkVersion [0, 1] t of
        Inl e \<Rightarrow> (Inl e, t)
      | Inr _ \<Rightarrow>
          (case validateInt val 1 maxUint64 of
             Inl e \<Rightarrow> (Inl e, t)
           | Inr v \<Rightarrow>
               (Inr (), t\<lparr>tx_bytes := arraySet (tx_bytes t) (uint64ToBytes v) (Some 69) None\<rparr>)))"
  by (simp add: setValue_def stmt_defs split: sum.splits)

lemma setNonce_unfold [code]:
  "setNonce nonce t =
     (case validateInt nonce 0 maxUint64 of
        Inl e \<Rightarrow> (Inl e, t)
      | Inr v \<Rightarrow>
          (Inr (), t\<lparr>tx_bytes := arraySet (tx_bytes t) (uint64ToBytes v) (Some 77) None\<rparr>))"
  by (simp add: setNonce_def stmt_defs split: sum.splits)

lemma setSignature_unfold [code]:
  "setSignature signature t =
     (if length signature \<noteq> 64 then (Inl (Error ''invalid length''), t)
      else (Inr (), t\<lparr>tx_bytes := arraySet (tx_bytes t) signature (Some 85) None\<rparr>))"
  by (simp add: setSignature_def stmt_defs)

lemma setPrefix_unfold [code]:
  "setPrefix prefix t =
     (case checkVersion [2, 3] t of
        Inl e \<Rightarrow> (Inl e, t)
      | Inr _ \<Rightarrow>
          (case prefixToVersion prefix of
             Inl e \<Rightarrow> (Inl e, t)
           | Inr v \<Rightarrow>
               (Inr (), t\<lparr>tx_bytes := arraySet (tx_bytes t) (uint16ToBytes v) (Some 35) None\<rparr>)))"
  by (simp add: setPrefix_def stmt_defs split: sum.splits)

lemma setName_unfold [code]:
  "setName name t =
     (case checkVersion [2, 3] t of
        Inl e \<Rightarrow> (Inl e, t)
      | Inr _ \<Rightarrow>
          if length (textEncode name) > 35 then (Inl (Error ''name is too long''), t)
          else
            (Inr (), t\<lparr>tx_bytes :=
               store (arraySet (arraySet (tx_bytes t) (arrayNew 36) (Some 41) None)
                        (textEncode name) (Some 42) None)
                 41 (int (length (textEncode name)))\<rparr>))"
  by (simp add: setName_def stmt_defs Let_def split: sum.splits)

lemma setProfitPercent_unfold [code]:
  "setProfitPercent percent t =
     (case checkVersion [2, 3] t of
        Inl e \<Rightarrow> (Inl e, t)
      | Inr _ \<Rightarrow>
          (case validateInt percent 100 500 of
             Inl e \<Rightarrow> (Inl e, t)
           | Inr v \<Rightarrow>
               (Inr (), t\<lparr>tx_bytes := arraySet (tx_bytes t) (uint16ToBytes v) (Some 37) None\<rparr>)))"
  by (simp add: setProfitPercent_def stmt_defs split: sum.splits)

lemma setFeePercent_unfold [code]:
  "setFeePercent percent t =
     (case checkVersion [2, 3] t of
        Inl e \<Rightarrow> (Inl e, t)
      | Inr _ \<Rightarrow>
          (case validateInt percent 0 2000 of
             Inl e \<Rightarrow> (Inl e, t)
           | Inr v \<Rightarrow>
               (Inr (), t\<lparr>tx_bytes := arraySet (tx_bytes t) (uint16ToBytes v) (Some 39) None\<rparr>)))"
  by (simp add: setFeePercent_def stmt_defs split: sum.splits)

lemma adr_setPrefix_unfold [code]:
  "adr_setPrefix prefix a =
     (case prefixToVersion prefix of
        Inl e \<Rightarrow> (Inl e, a)
      | Inr v \<Rightarrow> (Inr (), a\<lparr>adr_bytes := arraySet (adr_bytes a) (uint16ToBytes v) None None\<rparr>))"
  by (simp add: adr_setPrefix_def stmt_defs split: sum.splits)

lemma adr_setPublicKey_unfold [code]:
  "adr_setPublicKey publicKey a =
     (Inr (), a\<lparr>adr_bytes := arraySet (adr_bytes a) (pk_getBytes publicKey) (Some 2) None\<rparr>)"
  by (simp add: adr_setPublicKey_def stmt_defs)

lemma slice_nat:
  "0 \<le> b \<Longrightarrow> b \<le> e \<Longrightarrow> nat e \<le> length xs \<Longrightarrow>
   slice xs b e = take (nat e - nat b) (drop (nat b) xs)"
  by (simp add: slice_def sliceIndex_def Let_def min_def)

lemma length_slice:
  "0 \<le> b \<Longrightarrow> b \<le> e \<Longrightarrow> nat e \<le> length xs \<Longrightarrow> length (slice xs b e) = nat e - nat b"
  by (simp add: slice_nat)

lemma adr_fromBytes_ok: "length bytes = 34 \<Longrightarrow> \<exists>a. adr_fromBytes bytes = Inr a"
  by (simp add: adr_fromBytes_def)

lemma checkVersion_structure:
  "getVersion t = CreateStructure \<Longrightarrow> checkVersion [2, 3] t = Inr ()"
  "getVersion t = CreateStructure \<Longrightarrow> checkVersion [0, 1] t = Inl (Error ''invalid version'')"
  "getVersion t = CreateStructure \<Longrightarrow>
     checkVersion [0, 1, 4, 5, 6, 7] t = Inl (Error ''invalid version'')"
  by (simp_all add: checkVersion_def CreateStructure_def)

lemma checkVersion_basic:
  "getVersion t = Basic \<Longrightarrow> checkVersion [2, 3] t = Inl (Error ''invalid version'')"
  "getVersion t = Basic \<Longrightarrow> checkVersion [0, 1] t = Inr ()"
  "getVersion t = Basic \<Longrightarrow> checkVersion [0, 1, 4, 5, 6, 7] t = Inr ()"
  by (simp_all add: checkVersion_def Basic_def)

lemma versionToPrefix_error:
  "versionToPrefix v = Inl e \<Longrightarrow> e \<noteq> Error ''invalid version''"
  using checkPrefixChars_cases [of "[js_sar (js_and v 0x7C00) 10, js_sar (js_and v 0x03E0) 5, js_and v 0x001F]"]
  by (auto simp add: versionToPrefix_def Let_def simp del: checkPrefixChars.simps
      split: if_splits sum.splits)

lemma versionToPrefix_ok:
  "v = 0 \<or> valid_version v \<Longrightarrow> \<exists>p. versionToPrefix v = Inr p"
  using versionToPrefix_valid [of v] genesis_version(2) by auto

lemma gating_structure:
  assumes "getVersion t = CreateStructure"
  shows "getValue t = Inl invalidVersion"
    "setValue val t = (Inl invalidVersion, t)"
    "getRecipient t = Inl invalidVersion"
    "setRecipient a t = (Inl invalidVersion, t)"
    "\<exists>x. getProfitPercent t = Inr x"
    "\<exists>x. getFeePercent t = Inr x"
    "getPrefix t \<noteq> Inl invalidVersion"
    "getName t \<noteq> Inl invalidVersion"
  using checkVersion_structure [OF assms] versionToPrefix_error
  by (auto simp add: invalidVersion_def getValue_def setValue_def getRecipient_def
      setRecipient_def getProfitPercent_def getFeePercent_def getPrefix_def getName_def
      stmt_defs)

lemma gating_structure_set:
  assumes "getVersion t = CreateStructure"
  shows "storedPrefix t = 0 \<or> valid_version (storedPrefix t) \<Longrightarrow> \<exists>p. getPrefix t = Inr p"
    "at (tx_bytes t) 41 \<le> 35 \<Longrightarrow> \<exists>n. getName t = Inr n"
    "p = ''genesis'' \<or> (length p = 3 \<and> list_all lower p) \<Longrightarrow> fst (setPrefix p t) = Inr ()"
    "length (textEncode name) \<le> 35 \<Longrightarrow> fst (setName name t) = Inr ()"
    "100 \<le> n \<and> n \<le> 500 \<Longrightarrow> fst (setProfitPercent (Num n) t) = Inr ()"
    "0 \<le> n \<and> n \<le> 2000 \<Longrightarrow> fst (setFeePercent (Num n) t) = Inr ()"
proof -
  note c = checkVersion_structure [OF assms]
  show "\<exists>p. getPrefix t = Inr p" if "storedPrefix t = 0 \<or> valid_version (storedPrefix t)"
    using versionToPrefix_ok [OF that] by (simp add: getPrefix_def c storedPrefix_def)
  show "\<exists>n. getName t = Inr n" if "at (tx_bytes t) 41 \<le> 35"
    using that by (simp add: getName_def c)
  show "fst (setPrefix p t) = Inr ()" if "p = ''genesis'' \<or> (length p = 3 \<and> list_all lower p)"
    using that prefixToVersion_valid [of p] genesis_version(1)
    by (auto simp add: setPrefix_def c stmt_defs)
  show "fst (setName name t) = Inr ()" if "length (textEncode name) \<le> 35"
    using that by (simp add: setName_def c Let_def stmt_defs)
  show "fst (setProfitPercent (Num n) t) = Inr ()" if "100 \<le> n \<and> n \<le> 500"
    using that by (simp add: setProfitPercent_def c stmt_defs)
  show "fst (setFeePercent (Num n) t) = Inr ()" if "0 \<le> n \<and> n \<le> 2000"
    using that by (simp add: setFeePercent_def c stmt_defs)
qed

lemma gating_basic:
  assumes "getVersion t = Basic" "length (tx_bytes t) = 150"
  shows "\<exists>x. getValue t = Inr x"
    "\<exists>x. getRecipient t = Inr x"
    "fst (setRecipient a t) = Inr ()"
    "1 \<le> n \<and> n \<le> maxUint64 \<Longrightarrow> fst (setValue (Num n) t) = Inr ()"
    "getPrefix t = Inl invalidVersion"
    "setPrefix p t = (Inl invalidVersion, t)"
    "getName t = Inl invalidVersion"
    "setName name t = (Inl invalidVersion, t)"
    "getProfitPercent t = Inl invalidVersion"
    "setProfitPercent val t = (Inl invalidVersion, t)"
    "getFeePercent t = Inl invalidVersion"
    "setFeePercent val t = (Inl invalidVersion, t)"
proof -
  note c = checkVersion_basic [OF assms(1)]
  have "length (slice (tx_bytes t) 35 69) = 34" using assms(2) by (simp add: length_slice)
  then show "\<exists>x. getRecipient t = Inr x"
    using adr_fromBytes_ok by (simp add: getRecipient_def c)
  show "fst (setValue (Num n) t) = Inr ()" if "1 \<le> n \<and> n \<le> maxUint64"
    using that by (simp add: setValue_def c stmt_defs)
qed (simp_all add: checkVersion_basic [OF assms(1)] invalidVersion_def getValue_def setRecipient_def getPrefix_def
    setPrefix_def getName_def setName_def getProfitPercent_def setProfitPercent_def
    getFeePercent_def setFeePercent_def stmt_defs)

lemma checkVersion_sets:
  "checkVersion [0, 1] t = (if getVersion t \<in> {0, 1} then Inr () else Inl invalidVersion)"
  "checkVersion [0, 1, 4, 5, 6, 7] t =
     (if getVersion t \<in> {0, 1, 4, 5, 6, 7} then Inr () else Inl invalidVersion)"
  "checkVersion [2, 3] t = (if getVersion t \<in> {2, 3} then Inr () else Inl invalidVersion)"
  by (auto simp add: checkVersion_def invalidVersion_def)

lemma validateInt_error: "validateInt v mn mx = Inl e \<Longrightarrow> e \<noteq> invalidVersion"
  by (cases v) (auto simp add: invalidVersion_def split: if_splits)

lemma prefixToVersion_error: "prefixToVersion p = Inl e \<Longrightarrow> e \<noteq> invalidVersion"
  using checkPrefixChars_cases [of "[js_sub (charCodeAt p 0) 96, js_sub (charCodeAt p 1) 96,
    js_sub (charCodeAt p 2) 96]"]
  by (auto simp add: prefixToVersion_def validateStr_def invalidVersion_def Let_def
      simp del: checkPrefixChars.simps split: if_splits sum.splits)

lemma adr_fromBytes_error: "adr_fromBytes bytes = Inl e \<Longrightarrow> e \<noteq> invalidVersion"
  by (auto simp add: adr_fromBytes_def invalidVersion_def split: if_splits)

lemma gating_outside:
  "getVersion t \<notin> {0, 1} \<Longrightarrow> getValue t = Inl invalidVersion"
  "getVersion t \<notin> {0, 1} \<Longrightarrow> setValue val t = (Inl invalidVersion, t)"
  "getVersion t \<notin> {0, 1, 4, 5, 6, 7} \<Longrightarrow> getRecipient t = Inl invalidVersion"
  "getVersion t \<notin> {0, 1, 4, 5, 6, 7} \<Longrightarrow> setRecipient a t = (Inl invalidVersion, t)"
  "getVersion t \<notin> {2, 3} \<Longrightarrow> getPrefix t = Inl invalidVersion"
  "getVersion t \<notin> {2, 3} \<Longrightarrow> setPrefix p t = (Inl invalidVersion, t)"
  "getVersion t \<notin> {2, 3} \<Longrightarrow> getName t = Inl invalidVersion"
  "getVersion t \<notin> {2, 3} \<Longrightarrow> setName name t = (Inl invalidVersion, t)"
  "getVersion t \<notin> {2, 3} \<Longrightarrow> getProfitPercent t = Inl invalidVersion"
  "getVersion t \<notin> {2, 3} \<Longrightarrow> setProfitPercent val t = (Inl invalidVersion, t)"
  "getVersion t \<notin> {2, 3} \<Longrightarrow> getFeePercent t = Inl invalidVersion"
  "getVersion t \<notin> {2, 3} \<Longrightarrow> setFeePercent val t = (Inl invalidVersion, t)"
  by (simp_all add: checkVersion_sets getValue_def setValue_unfold getRecipient_def
      setRecipient_unfold getPrefix_def setPrefix_unfold getName_def setName_unfold
      getProfitPercent_def setProfitPercent_unfold getFeePercent_def setFeePercent_unfold)

lemma gating_inside:
  "getVersion t \<in> {0, 1} \<Longrightarrow> getValue t \<noteq> Inl invalidVersion"
  "getVersion t \<in> {0, 1} \<Longrightarrow> setValue val t \<noteq> (Inl invalidVersion, t)"
  "getVersion t \<in> {0, 1, 4, 5, 6, 7} \<Longrightarrow> getRecipient t \<noteq> Inl invalidVersion"
  "getVersion t \<in> {0, 1, 4, 5, 6, 7} \<Longrightarrow> setRecipient a t \<noteq> (Inl invalidVersion, t)"
  "getVersion t \<in> {2, 3} \<Longrightarrow> getPrefix t \<noteq> Inl invalidVersion"
  "getVersion t \<in> {2, 3} \<Longrightarrow> setPrefix p t \<noteq> (Inl invalidVersion, t)"
  "getVersion t \<in> {2, 3} \<Longrightarrow> getName t \<noteq> Inl invalidVersion"
  "getVersion t \<in> {2, 3} \<Longrightarrow> setName name t \<noteq> (Inl invalidVersion, t)"
  "getVersion t \<in> {2, 3} \<Longrightarrow> getProfitPercent t \<noteq> Inl invalidVersion"
  "getVersion t \<in> {2, 3} \<Longrightarrow> setProfitPercent val t \<noteq> (Inl invalidVersion, t)"
  "getVersion t \<in> {2, 3} \<Longrightarrow> getFeePercent t \<noteq> Inl invalidVersion"
  "getVersion t \<in> {2, 3} \<Longrightarrow> setFeePercent val t \<noteq> (Inl invalidVersion, t)"
proof -
  show "getVersion t \<in> {0, 1} \<Longrightarrow> getValue t \<noteq> Inl invalidVersion"
    by (simp add: checkVersion_sets getValue_def)
  show "getVersion t \<in> {0, 1} \<Longrightarrow> setValue val t \<noteq> (Inl invalidVersion, t)"
    using validateInt_error [of val 1 maxUint64]
    by (auto simp add: checkVersion_sets setValue_unfold split: sum.splits)
  show "getVersion t \<in> {0, 1, 4, 5, 6, 7} \<Longrightarrow> getRecipient t \<noteq> Inl invalidVersion"
    using adr_fromBytes_error [of "slice (tx_bytes t) 35 69"]
    by (auto simp add: checkVersion_sets getRecipient_def)
  show "getVersion t \<in> {0, 1, 4, 5, 6, 7} \<Longrightarrow> setRecipient a t \<noteq> (Inl invalidVersion, t)"
    by (simp add: checkVersion_sets setRecipient_unfold)
  show "getVersion t \<in> {2, 3} \<Longrightarrow> getPrefix t \<noteq> Inl invalidVersion"
    using versionToPrefix_error [of "bytesToUint16 (slice (tx_bytes t) 35 37)"]
    by (auto simp add: checkVersion_sets getPrefix_def invalidVersion_def)
  show "getVersion t \<in> {2, 3} \<Longrightarrow> setPrefix p t \<noteq> (Inl invalidVersion, t)"
    using prefixToVersion_error [of p]
    by (auto simp add: checkVersion_sets setPrefix_unfold split: sum.splits)
  show "getVersion t \<in> {2, 3} \<Longrightarrow> getName t \<noteq> Inl invalidVersion"
    by (simp add: checkVersion_sets getName_def invalidVersion_def)
  show "getVersion t \<in> {2, 3} \<Longrightarrow> setName name t \<noteq> (Inl invalidVersion, t)"
    by (simp add: checkVersion_sets setName_unfold invalidVersion_def)
  show "getVersion t \<in> {2, 3} \<Longrightarrow> getProfitPercent t \<noteq> Inl invalidVersion"
    by (simp add: checkVersion_sets getProfitPercent_def)
  show "getVersion t \<in> {2, 3} \<Longrightarrow> setProfitPercent val t \<noteq> (Inl invalidVersion, t)"
    using validateInt_error [of val 100 500]
    by (auto simp add: checkVersion_sets setProfitPercent_unfold split: sum.splits)
  show "getVersion t \<in> {2, 3} \<Longrightarrow> getFeePercent t \<noteq> Inl invalidVersion"
    by (simp add: checkVersion_sets getFeePercent_def)
  show "getVersion t \<in> {2, 3} \<Longrightarrow> setFeePercent val t \<noteq> (Inl invalidVersion, t)"
    using validateInt_error [of val 0 2000]
    by (auto simp add: checkVersion_sets setFeePercent_unfold split: sum.splits)
qed

lemma gating_sets:
  "(getValue t = Inl invalidVersion) = (getVersion t \<notin> {0, 1})"
  "(setValue val t = (Inl invalidVersion, t)) = (getVersion t \<notin> {0, 1})"
  "(getRecipient t = Inl invalidVersion) = (getVersion t \<notin> {0, 1, 4, 5, 6, 7})"
  "(setRecipient a t = (Inl invalidVersion, t)) = (getVersion t \<notin> {0, 1, 4, 5, 6, 7})"
  "(getPrefix t = Inl invalidVersion) = (getVersion t \<notin> {2, 3})"
  "(setPrefix p t = (Inl invalidVersion, t)) = (getVersion t \<notin> {2, 3})"
  "(getName t = Inl invalidVersion) = (getVersion t \<notin> {2, 3})"
  "(setName name t = (Inl invalidVersion, t)) = (getVersion t \<notin> {2, 3})"
  "(getProfitPercent t = Inl invalidVersion) = (getVersion t \<notin> {2, 3})"
  "(setProfitPercent val t = (Inl invalidVersion, t)) = (getVersion t \<notin> {2, 3})"
  "(getFeePercent t = Inl invalidVersion) = (getVersion t \<notin> {2, 3})"
  "(setFeePercent val t = (Inl invalidVersion, t)) = (getVersion t \<notin> {2, 3})"
proof -
  have r: "(P = (\<not> Q))" if "\<not> Q \<Longrightarrow> P" "Q \<Longrightarrow> \<not> P" for P Q
    using that by blast
  show "(getValue t = Inl invalidVersion) = (getVersion t \<notin> {0, 1})"
    by (rule r) (rule gating_outside gating_inside, assumption)+
  show "(setValue val t = (Inl invalidVersion, t)) = (getVersion t \<notin> {0, 1})"
    by (rule r) (rule gating_outside gating_inside, assumption)+
  show "(getRecipient t = Inl invalidVersion) = (getVersion t \<notin> {0, 1, 4, 5, 6, 7})"
    by (rule r) (rule gating_outside gating_inside, assumption)+
  show "(setRecipient a t = (Inl invalidVersion, t)) = (getVersion t \<notin> {0, 1, 4, 5, 6, 7})"
    by (rule r) (rule gating_outside gating_inside, assumption)+
  show "(getPrefix t = Inl invalidVersion) = (getVersion t \<notin> {2, 3})"
    by (rule r) (rule gating_outside gating_inside, assumption)+
  show "(setPrefix p t = (Inl invalidVersion, t)) = (getVersion t \<notin> {2, 3})"
    by (rule r) (rule gating_outside gating_inside, assumption)+
  show "(getName t = Inl invalidVersion) = (getVersion t \<notin> {2, 3})"
    by (rule r) (rule gating_outside gating_inside, assumption)+
  show "(setName name t = (Inl invalidVersion, t)) = (getVersion t \<notin> {2, 3})"
    by (rule r) (rule gating_outside gating_inside, assumption)+
  show "(getProfitPercent t = Inl invalidVersion) = (getVersion t \<notin> {2, 3})"
    by (rule r) (rule gating_outside gating_inside, assumption)+
  show "(setProfitPercent val t = (Inl invalidVersion, t)) = (getVersion t \<notin> {2, 3})"
    by (rule r) (rule gating_outside gating_inside, assumption)+
  show "(getFeePercent t = Inl invalidVersion) = (getVersion t \<notin> {2, 3})"
    by (rule r) (rule gating_outside gating_inside, assumption)+
  show "(setFeePercent val t = (Inl invalidVersion, t)) = (getVersion t \<notin> {2, 3})"
    by (rule r) (rule gating_outside gating_inside, assumption)+
qed

lemma gating_value:
  assumes "getVersion t \<in> {0, 1}"
  shows "\<exists>x. getValue t = Inr x"
    "1 \<le> n \<and> n \<le> maxUint64 \<Longrightarrow> fst (setValue (Num n) t) = Inr ()"
  using assms by (simp_all add: checkVersion_sets getValue_def setValue_unfold)

lemma gating_recipient:
  assumes "getVersion t \<in> {0, 1, 4, 5, 6, 7}" "length (tx_bytes t) = 150"
  shows "\<exists>x. getRecipient t = Inr x" "fst (setRecipient a t) = Inr ()"
proof -
  have "length (slice (tx_bytes t) 35 69) = 34" using assms(2) by (simp add: length_slice)
  then show "\<exists>x. getRecipient t = Inr x"
    using adr_fromBytes_ok assms(1) by (simp add: getRecipient_def checkVersion_sets)
  show "fst (setRecipient a t) = Inr ()"
    using assms(1) by (simp add: setRecipient_unfold checkVersion_sets)
qed

lemma gating_fields:
  assumes "getVersion t \<in> {2, 3}"
  shows "\<exists>x. getProfitPercent t = Inr x"
    "\<exists>x. getFeePercent t = Inr x"
    "getPrefix t = versionToPrefix (storedPrefix t)"
    "storedPrefix t = 0 \<or> valid_version (storedPrefix t) \<Longrightarrow> \<exists>x. getPrefix t = Inr x"
    "storedPrefix t \<noteq> 0 \<and> \<not> valid_version (storedPrefix t) \<Longrightarrow> \<exists>e. getPrefix t = Inl e"
    "at (tx_bytes t) 41 \<le> 35 \<Longrightarrow> \<exists>x. getName t = Inr x"
    "35 < at (tx_bytes t) 41 \<Longrightarrow> getName t = Inl (Error ''invalid length'')"
    "p = ''genesis'' \<or> (length p = 3 \<and> list_all lower p) \<Longrightarrow> fst (setPrefix p t) = Inr ()"
    "length (textEncode name) \<le> 35 \<Longrightarrow> fst (setName name t) = Inr ()"
    "100 \<le> m \<and> m \<le> 500 \<Longrightarrow> fst (setProfitPercent (Num m) t) = Inr ()"
    "0 \<le> k \<and> k \<le> 2000 \<Longrightarrow> fst (setFeePercent (Num k) t) = Inr ()"
proof -
  have c: "checkVersion [2, 3] t = Inr ()" using assms by (simp add: checkVersion_sets)
  show "\<exists>x. getProfitPercent t = Inr x" "\<exists>x. getFeePercent t = Inr x"
    by (simp_all add: getProfitPercent_def getFeePercent_def c)
  show p: "getPrefix t = versionToPrefix (storedPrefix t)"
    by (simp add: getPrefix_def c storedPrefix_def)
  show "\<exists>x. getPrefix t = Inr x" if "storedPrefix t = 0 \<or> valid_version (storedPrefix t)"
    using versionToPrefix_ok [OF that] by (simp add: p)
  show "\<exists>e. getPrefix t = Inl e" if "storedPrefix t \<noteq> 0 \<and> \<not> valid_version (storedPrefix t)"
    using versionToPrefix_reject [of "storedPrefix t"] that
    by (cases "versionToPrefix (storedPrefix t)") (simp_all add: p)
  show "\<exists>x. getName t = Inr x" if "at (tx_bytes t) 41 \<le> 35"
    using that by (simp add: getName_def c)
  show "getName t = Inl (Error ''invalid length'')" if "35 < at (tx_bytes t) 41"
    using that by (simp add: getName_def c)
  show "fst (setPrefix p t) = Inr ()" if "p = ''genesis'' \<or> (length p = 3 \<and> list_all lower p)"
    using that prefixToVersion_valid [of p] genesis_version(1)
    by (auto simp add: setPrefix_unfold c)
  show "fst (setName name t) = Inr ()" if "length (textEncode name) \<le> 35"
    using that by (simp add: setName_unfold c)
  show "fst (setProfitPercent (Num m) t) = Inr ()" if "100 \<le> m \<and> m \<le> 500"
    using that by (simp add: setProfitPercent_unfold c)
  show "fst (setFeePercent (Num k) t) = Inr ()" if "0 \<le> k \<and> k \<le> 2000"
    using that by (simp add: setFeePercent_unfold c)
qed

text \<open>
  C4, as amended. For every transaction of 150 bytes and every value of its version
  byte, every version-gated accessor enforces its version set on both get and set: the
  value accessors raise the invalid-version error exactly when the version is not 0 or
  1, the recipient accessors exactly when it is not one of 0, 1, 4, 5, 6, 7, the
  structure-field accessors (prefix, name, profit percent, fee percent) exactly when it
  is not 2 or 3, and a setter that raises it leaves the transaction as it was.

  When the version is in their set, \<open>getValue\<close>, \<open>getRecipient\<close>, \<open>setRecipient\<close>,
  \<open>getProfitPercent\<close> and \<open>getFeePercent\<close> succeed and the other setters succeed on
  a valid argument; \<open>getPrefix\<close> returns what \<open>versionToPrefix\<close> returns on the stored
  prefix code, so it succeeds when that code is 0 or valid and raises an error
  otherwise; \<open>getName\<close> succeeds when the stored name length (offset 41) is at most 35
  and raises the invalid-length error otherwise.

  So with version \<open>CreateStructure\<close> the value and recipient accessors raise the
  invalid-version error, \<open>getProfitPercent\<close> and \<open>getFeePercent\<close> succeed, and
  \<open>getPrefix\<close> and \<open>getName\<close> pass the version check and then succeed or fail as
  above; with version \<open>Basic\<close> the value and recipient accessors succeed (\<open>setValue\<close>
  on an argument in range) and every structure-field accessor raises the invalid-version
  error.
\<close>

theorem version_gating:
  "length (tx_bytes t) = 150 \<longrightarrow>
     ((getValue t = Inl invalidVersion) = (getVersion t \<notin> {0, 1}))
     \<and> ((setValue val t = (Inl invalidVersion, t)) = (getVersion t \<notin> {0, 1}))
     \<and> ((getRecipient t = Inl invalidVersion) = (getVersion t \<notin> {0, 1, 4, 5, 6, 7}))
     \<and> ((setRecipient a t = (Inl invalidVersion, t)) = (getVersion t \<notin> {0, 1, 4, 5, 6, 7}))
     \<and> ((getPrefix t = Inl invalidVersion) = (getVersion t \<notin> {2, 3}))
     \<and> ((setPrefix p t = (Inl invalidVersion, t)) = (getVersion t \<notin> {2, 3}))
     \<and> ((getName t = Inl invalidVersion) = (getVersion t \<notin> {2, 3}))
     \<and> ((setName name t = (Inl invalidVersion, t)) = (getVersion t \<notin> {2, 3}))
     \<and> ((getProfitPercent t = Inl invalidVersion) = (getVersion t \<notin> {2, 3}))
     \<and> ((setProfitPercent val t = (Inl invalidVersion, t)) = (getVersion t \<notin> {2, 3}))
     \<and> ((getFeePercent t = Inl invalidVersion) = (getVersion t \<notin> {2, 3}))
     \<and> ((setFeePercent val t = (Inl invalidVersion, t)) = (getVersion t \<notin> {2, 3}))
     \<and> (getVersion t \<in> {0, 1} \<longrightarrow>
        (\<exists>x. getValue t = Inr x)
        \<and> (1 \<le> n \<and> n \<le> maxUint64 \<longrightarrow> fst (setValue (Num n) t) = Inr ()))
     \<and> (getVersion t \<in> {0, 1, 4, 5, 6, 7} \<longrightarrow>
        (\<exists>x. getRecipient t = Inr x) \<and> fst (setRecipient a t) = Inr ())
     \<and> (getVersion t \<in> {2, 3} \<longrightarrow>
        (\<exists>x. getProfitPercent t = Inr x) \<and> (\<exists>x. getFeePercent t = Inr x)
        \<and> getPrefix t = versionToPrefix (storedPrefix t)
        \<and> (storedPrefix t = 0 \<or> valid_version (storedPrefix t) \<longrightarrow> (\<exists>x. getPrefix t = Inr x))
        \<and> (storedPrefix t \<noteq> 0 \<and> \<not> valid_version (storedPrefix t) \<longrightarrow>
             (\<exists>e. getPrefix t = Inl e))
        \<and> (at (tx_bytes t) 41 \<le> 35 \<longrightarrow> (\<exists>x. getName t = Inr x))
        \<and> (35 < at (tx_bytes t) 41 \<longrightarrow> getName t = Inl (Error ''invalid length''))
        \<and> (p = ''genesis'' \<or> (length p = 3 \<and> list_all lower p) \<longrightarrow> fst (setPrefix p t) = Inr ())
        \<and> (length (textEncode name) \<le> 35 \<longrightarrow> fst (setName name t) = Inr ())
        \<and> (100 \<le> m \<and> m \<le> 500 \<longrightarrow> fst (setProfitPercent (Num m) t) = Inr ())
        \<and> (0 \<le> k \<and> k \<le> 2000 \<longrightarrow> fst (setFeePercent (Num k) t) = Inr ()))
     \<and> (getVersion t = CreateStructure \<longrightarrow>
        getValue t = Inl invalidVersion \<and> setValue val t = (Inl invalidVersion, t)
        \<and> getRecipient t = Inl invalidVersion \<and> setRecipient a t = (Inl invalidVersion, t)
        \<and> (\<exists>x. getProfitPercent t = Inr x) \<and> (\<exists>x. getFeePercent t = Inr x)
        \<and> getPrefix t \<noteq> Inl invalidVersion \<and> getName t \<noteq> Inl invalidVersion
        \<and> (storedPrefix t = 0 \<or> valid_version (storedPrefix t) \<longrightarrow> (\<exists>x. getPrefix t = Inr x))
        \<and> (storedPrefix t \<noteq> 0 \<and> \<not> valid_version (storedPrefix t) \<longrightarrow>
             (\<exists>e. getPrefix t = Inl e))
        \<and> (at (tx_bytes t) 41 \<le> 35 \<longrightarrow> (\<exists>x. getName t = Inr x))
        \<and> (35 < at (tx_bytes t) 41 \<longrightarrow> getName t = Inl (Error ''invalid length''))
        \<and> (p = ''genesis'' \<or> (length p = 3 \<and> list_all lower p) \<longrightarrow> fst (setPrefix p t) = Inr ())
        \<and> (length (textEncode name) \<le> 35 \<longrightarrow> fst (setName name t) = Inr ())
        \<and> (100 \<le> m \<and> m \<le> 500 \<longrightarrow> fst (setProfitPercent (Num m) t) = Inr ())
        \<and> (0 \<le> k \<and> k \<le> 2000 \<longrightarrow> fst (setFeePercent (Num k) t) = Inr ()))
     \<and> (getVersion t = Basic \<longrightarrow>
        (\<exists>x. getValue t = Inr x) \<and> (\<exists>x. getRecipient t = Inr x)
        \<and> fst (setRecipient a t) = Inr ()
        \<and> (1 \<le> n \<and> n \<le> maxUint64 \<longrightarrow> fst (setValue (Num n) t) = Inr ())
        \<and> getPrefix t = Inl invalidVersion \<and> setPrefix p t = (Inl invalidVersion, t)
        \<and> getName t = Inl invalidVersion \<and> setName name t = (Inl invalidVersion, t)
        \<and> getProfitPercent t = Inl invalidVersion
        \<and> setProfitPercent val t = (Inl invalidVersion, t)
        \<and> getFeePercent t = Inl invalidVersion
        \<and> setFeePercent val t = (Inl invalidVersion, t))"
proof (intro impI conjI)
  assume l: "length (tx_bytes t) = 150"
  show "(getValue t = Inl invalidVersion) = (getVersion t \<notin> {0, 1})"
    "(setValue val t = (Inl invalidVersion, t)) = (getVersion t \<notin> {0, 1})"
    "(getRecipient t = Inl invalidVersion) = (getVersion t \<notin> {0, 1, 4, 5, 6, 7})"
    "(setRecipient a t = (Inl invalidVersion, t)) = (getVersion t \<notin> {0, 1, 4, 5, 6, 7})"
    "(getPrefix t = Inl invalidVersion) = (getVersion t \<notin> {2, 3})"
    "(setPrefix p t = (Inl invalidVersion, t)) = (getVersion t \<notin> {2, 3})"
    "(getName t = Inl invalidVersion) = (getVersion t \<notin> {2, 3})"
    "(setName name t = (Inl invalidVersion, t)) = (getVersion t \<notin> {2, 3})"
    "(getProfitPercent t = Inl invalidVersion) = (getVersion t \<notin> {2, 3})"
    "(setProfitPercent val t = (Inl invalidVersion, t)) = (getVersion t \<notin> {2, 3})"
    "(getFeePercent t = Inl invalidVersion) = (getVersion t \<notin> {2, 3})"
    "(setFeePercent val t = (Inl invalidVersion, t)) = (getVersion t \<notin> {2, 3})"
    by (rule gating_sets)+
  {
    assume v: "getVersion t \<in> {0, 1}"
    note g = gating_value [OF v]
    show "\<exists>x. getValue t = Inr x" by (rule g)
    show "fst (setValue (Num n) t) = Inr ()" if "1 \<le> n \<and> n \<le> maxUint64"
      using that by (rule g)
  }
  {
    assume v: "getVersion t \<in> {0, 1, 4, 5, 6, 7}"
    show "\<exists>x. getRecipient t = Inr x" "fst (setRecipient a t) = Inr ()"
      by (rule gating_recipient [OF v l])+
  }
  {
    assume v: "getVersion t \<in> {2, 3}"
    note g = gating_fields [OF v]
    show "\<exists>x. getProfitPercent t = Inr x" "\<exists>x. getFeePercent t = Inr x"
      "getPrefix t = versionToPrefix (storedPrefix t)"
      by (rule g)+
    show "\<exists>x. getPrefix t = Inr x" if "storedPrefix t = 0 \<or> valid_version (storedPrefix t)"
      using that by (rule g)
    show "\<exists>e. getPrefix t = Inl e" if "storedPrefix t \<noteq> 0 \<and> \<not> valid_version (storedPrefix t)"
      using that by (rule g)
    show "\<exists>x. getName t = Inr x" if "at (tx_bytes t) 41 \<le> 35"
      using that by (rule g)
    show "getName t = Inl (Error ''invalid length'')" if "35 < at (tx_bytes t) 41"
      using that by (rule g)
    show "fst (setPrefix p t) = Inr ()" if "p = ''genesis'' \<or> (length p = 3 \<and> list_all lower p)"
      using that by (rule g)
    show "fst (setName name t) = Inr ()" if "length (textEncode name) \<le> 35"
      using that by (rule g)
    show "fst (setProfitPercent (Num m) t) = Inr ()" if "100 \<le> m \<and> m \<le> 500"
      using that by (rule g)
    show "fst (setFeePercent (Num k) t) = Inr ()" if "0 \<le> k \<and> k \<le> 2000"
      using that by (rule g)
  }
  {
    assume v: "getVersion t = CreateStructure"
    then have w: "getVersion t \<in> {2, 3}" by (simp add: CreateStructure_def)
    note g = gating_structure [OF v] gating_fields [OF w]
    show "getValue t = Inl invalidVersion" "setValue val t = (Inl invalidVersion, t)"
      "getRecipient t = Inl invalidVersion" "setRecipient a t = (Inl invalidVersion, t)"
      "\<exists>x. getProfitPercent t = Inr x" "\<exists>x. getFeePercent t = Inr x"
      "getPrefix t \<noteq> Inl invalidVersion" "getName t \<noteq> Inl invalidVersion"
      by (rule g)+
    show "\<exists>x. getPrefix t = Inr x" if "storedPrefix t = 0 \<or> valid_version (storedPrefix t)"
      using that by (rule g)
    show "\<exists>e. getPrefix t = Inl e" if "storedPrefix t \<noteq> 0 \<and> \<not> valid_version (storedPrefix t)"
      using that by (rule g)
    show "\<exists>x. getName t = Inr x" if "at (tx_bytes t) 41 \<le> 35"
      using that by (rule g)
    show "getName t = Inl (Error ''invalid length'')" if "35 < at (tx_bytes t) 41"
      using that by (rule g)
    show "fst (setPrefix p t) = Inr ()" if "p = ''genesis'' \<or> (length p = 3 \<and> list_all lower p)"
      using that by (rule g)
    show "fst (setName name t) = Inr ()" if "length (textEncode name) \<le> 35"
      using that by (rule g)
    show "fst (setProfitPercent (Num m) t) = Inr ()" if "100 \<le> m \<and> m \<le> 500"
      using that by (rule g)
    show "fst (setFeePercent (Num k) t) = Inr ()" if "0 \<le> k \<and> k \<le> 2000"
      using that by (rule g)
  }
  {
    assume v: "getVersion t = Basic"
    note g = gating_basic [OF v l]
    show "\<exists>x. getValue t = Inr x" "\<exists>x. getRecipient t = Inr x"
      "fst (setRecipient a t) = Inr ()"
      "getPrefix t = Inl invalidVersion" "setPrefix p t = (Inl invalidVersion, t)"
      "getName t = Inl invalidVersion" "setName name t = (Inl invalidVersion, t)"
      "getProfitPercent t = Inl invalidVersion"
      "setProfitPercent val t = (Inl invalidVersion, t)"
      "getFeePercent t = Inl invalidVersion"
      "setFeePercent val t = (Inl invalidVersion, t)"
      by (rule g)+
    show "fst (setValue (Num n) t) = Inr ()" if "1 \<le> n \<and> n \<le> maxUint64"
      using that by (rule g)
  }
qed

theorem version_gating_witness:
  "length (tx_bytes structureTransaction) = 150
   \<and> getVersion structureTransaction = CreateStructure
   \<and> storedPrefix structureTransaction = 0
   \<and> at (tx_bytes structureTransaction) 41 \<le> 35
   \<and> length ''abc'' = 3 \<and> list_all lower ''abc''
   \<and> length (textEncode [72, 105]) \<le> 35
   \<and> getValue structureTransaction = Inl invalidVersion
   \<and> getRecipient structureTransaction = Inl invalidVersion
   \<and> (\<exists>x. getPrefix structureTransaction = Inr x)
   \<and> (\<exists>x. getName structureTransaction = Inr x)
   \<and> fst (setPrefix ''abc'' structureTransaction) = Inr ()
   \<and> fst (setName [72, 105] structureTransaction) = Inr ()
   \<and> fst (setProfitPercent (Num 100) structureTransaction) = Inr ()
   \<and> fst (setFeePercent (Num 0) structureTransaction) = Inr ()
   \<and> length (tx_bytes newTransaction) = 150
   \<and> getVersion newTransaction = Basic
   \<and> 1 \<le> (42 :: int) \<and> 42 \<le> maxUint64
   \<and> (\<exists>x. getValue newTransaction = Inr x)
   \<and> (\<exists>x. getRecipient newTransaction = Inr x)
   \<and> fst (setValue (Num 42) newTransaction) = Inr ()
   \<and> getName newTransaction = Inl invalidVersion
   \<and> length (tx_bytes longNameTransaction) = 150
   \<and> getVersion longNameTransaction = CreateStructure
   \<and> 35 < at (tx_bytes longNameTransaction) 41
   \<and> getName longNameTransaction = Inl (Error ''invalid length'')
   \<and> length (tx_bytes highPrefixTransaction) = 150
   \<and> getVersion highPrefixTransaction = CreateStructure
   \<and> storedPrefix highPrefixTransaction \<noteq> 0
   \<and> \<not> valid_version (storedPrefix highPrefixTransaction)
   \<and> (\<exists>e. getPrefix highPrefixTransaction = Inl e)
   \<and> length (tx_bytes (versionTransaction 0)) = 150
   \<and> getVersion (versionTransaction 0) \<in> {0, 1}
   \<and> (\<exists>x. getValue (versionTransaction 0) = Inr x)
   \<and> getFeePercent (versionTransaction 0) = Inl invalidVersion
   \<and> length (tx_bytes (versionTransaction 3)) = 150
   \<and> getVersion (versionTransaction 3) \<in> {2, 3}
   \<and> (\<exists>x. getProfitPercent (versionTransaction 3) = Inr x)
   \<and> getValue (versionTransaction 3) = Inl invalidVersion
   \<and> getRecipient (versionTransaction 3) = Inl invalidVersion
   \<and> length (tx_bytes (versionTransaction 4)) = 150
   \<and> getVersion (versionTransaction 4) \<in> {0, 1, 4, 5, 6, 7}
   \<and> (\<exists>x. getRecipient (versionTransaction 4) = Inr x)
   \<and> getValue (versionTransaction 4) = Inl invalidVersion
   \<and> getPrefix (versionTransaction 4) = Inl invalidVersion"
proof -
  have s: "length (tx_bytes structureTransaction) = 150"
    "getVersion structureTransaction = CreateStructure"
    "storedPrefix structureTransaction = 0"
    "at (tx_bytes structureTransaction) 41 \<le> 35"
    by code_simp+
  have a: "length ''abc'' = 3 \<and> list_all lower ''abc''" "length (textEncode [72, 105]) \<le> 35"
    by code_simp+
  have b: "length (tx_bytes newTransaction) = 150" "getVersion newTransaction = Basic"
    "1 \<le> (42 :: int)" "42 \<le> maxUint64"
    by code_simp+
  have c: "length (tx_bytes longNameTransaction) = 150"
    "getVersion longNameTransaction = CreateStructure"
    "35 < at (tx_bytes longNameTransaction) 41"
    by code_simp+
  have d: "length (tx_bytes highPrefixTransaction) = 150"
    "getVersion highPrefixTransaction = CreateStructure"
    "storedPrefix highPrefixTransaction \<noteq> 0"
    "\<not> valid_version (storedPrefix highPrefixTransaction)"
    by code_simp+
  have e: "length (tx_bytes (versionTransaction 0)) = 150"
    "getVersion (versionTransaction 0) = 0"
    "length (tx_bytes (versionTransaction 3)) = 150"
    "getVersion (versionTransaction 3) = 3"
    "length (tx_bytes (versionTransaction 4)) = 150"
    "getVersion (versionTransaction 4) = 4"
    by code_simp+
  have 1: "getValue structureTransaction = Inl invalidVersion
    \<and> getRecipient structureTransaction = Inl invalidVersion
    \<and> (\<exists>x. getPrefix structureTransaction = Inr x)
    \<and> (\<exists>x. getName structureTransaction = Inr x)
    \<and> fst (setPrefix ''abc'' structureTransaction) = Inr ()
    \<and> fst (setName [72, 105] structureTransaction) = Inr ()
    \<and> fst (setProfitPercent (Num 100) structureTransaction) = Inr ()
    \<and> fst (setFeePercent (Num 0) structureTransaction) = Inr ()"
    using version_gating [where t = structureTransaction and p = "''abc''"
        and name = "[72, 105]" and m = 100 and k = 0] s a
    by simp
  have 2: "(\<exists>x. getValue newTransaction = Inr x)
    \<and> (\<exists>x. getRecipient newTransaction = Inr x)
    \<and> fst (setValue (Num 42) newTransaction) = Inr ()
    \<and> getName newTransaction = Inl invalidVersion"
    using version_gating [where t = newTransaction and n = 42] b
    by simp
  have 3: "getName longNameTransaction = Inl (Error ''invalid length'')"
    using version_gating [where t = longNameTransaction] c
    by simp
  have 4: "\<exists>e. getPrefix highPrefixTransaction = Inl e"
    using version_gating [where t = highPrefixTransaction] d
    by simp
  have 5: "(\<exists>x. getValue (versionTransaction 0) = Inr x)
    \<and> getFeePercent (versionTransaction 0) = Inl invalidVersion"
    using version_gating [where t = "versionTransaction 0"] e
    by simp
  have 6: "(\<exists>x. getProfitPercent (versionTransaction 3) = Inr x)
    \<and> getValue (versionTransaction 3) = Inl invalidVersion
    \<and> getRecipient (versionTransaction 3) = Inl invalidVersion"
    using version_gating [where t = "versionTransaction 3"] e
    by simp
  have 7: "(\<exists>x. getRecipient (versionTransaction 4) = Inr x)
    \<and> getValue (versionTransaction 4) = Inl invalidVersion
    \<and> getPrefix (versionTransaction 4) = Inl invalidVersion"
    using version_gating [where t = "versionTransaction 4"] e
    by simp
  show ?thesis
    using s a b c d e 1 2 3 4 5 6 7 by simp
qed

text \<open>
  C4 as stated fails for \<open>getName\<close> and for \<open>getPrefix\<close>. Each of the two
  transactions that \<open>Transaction.fromBytes\<close> builds from a record of version
  \<open>CreateStructure\<close> passes the version check; in the one whose name length byte is
  36, \<open>getName\<close> raises the invalid-length error, and in the one whose prefix field
  holds the code \<open>0x8000\<close>, \<open>getPrefix\<close> raises the error of \<open>versionToPrefix\<close>.
\<close>

theorem version_gating_counterexample:
  "tx_fromBytes longNameBytes = Inr longNameTransaction
   \<and> getVersion longNameTransaction = CreateStructure
   \<and> getName longNameTransaction = Inl (Error ''invalid length'')
   \<and> tx_fromBytes highPrefixBytes = Inr highPrefixTransaction
   \<and> getVersion highPrefixTransaction = CreateStructure
   \<and> getPrefix highPrefixTransaction = Inl (Error ''bech32: invalid version'')"
  by code_simp

section \<open>Transactions: the value range and failed setters\<close>

text \<open>
  C5 (an argument outside 1 to 18446744073709551615 raises an error): the bound is
  written as a number literal, which denotes \<open>2 ^ 64\<close>, so \<open>setValue\<close> and
  \<open>setNonce\<close> accept the number \<open>2 ^ 64 = 18446744073709551616\<close>, store eight zero
  bytes for it, and \<open>getValue\<close> and \<open>getNonce\<close> return 0.
\<close>

theorem setValue_accepts_two_to_64:
  "maxUint64 = 18446744073709551616
   \<and> fst (setValue (Num 18446744073709551616) newTransaction) = Inr ()
   \<and> slice (tx_bytes (snd (setValue (Num 18446744073709551616) newTransaction))) 69 77
       = [0, 0, 0, 0, 0, 0, 0, 0]
   \<and> getValue (snd (setValue (Num 18446744073709551616) newTransaction)) = Inr 0
   \<and> fst (setNonce (Num 18446744073709551616) newTransaction) = Inr ()
   \<and> getNonce (snd (setNonce (Num 18446744073709551616) newTransaction)) = 0"
  by code_simp

lemma failed_tx_setters:
  "isl (fst (setVersion val t)) \<Longrightarrow> snd (setVersion val t) = t"
  "isl (fst (setRecipient a t)) \<Longrightarrow> snd (setRecipient a t) = t"
  "isl (fst (setValue val t)) \<Longrightarrow> snd (setValue val t) = t"
  "isl (fst (setNonce val t)) \<Longrightarrow> snd (setNonce val t) = t"
  "isl (fst (setSignature sig t)) \<Longrightarrow> snd (setSignature sig t) = t"
  "isl (fst (setPrefix p t)) \<Longrightarrow> snd (setPrefix p t) = t"
  "isl (fst (setName name t)) \<Longrightarrow> snd (setName name t) = t"
  "isl (fst (setProfitPercent val t)) \<Longrightarrow> snd (setProfitPercent val t) = t"
  "isl (fst (setFeePercent val t)) \<Longrightarrow> snd (setFeePercent val t) = t"
  "isl (fst (adr_setPrefix p adr)) \<Longrightarrow> snd (adr_setPrefix p adr) = adr"
  unfolding setVersion_unfold setRecipient_unfold setValue_unfold setNonce_unfold
    setSignature_unfold setPrefix_unfold setName_unfold setProfitPercent_unfold
    setFeePercent_unfold adr_setPrefix_unfold
  by (simp_all split: sum.splits if_splits)

text \<open>
  C8: a setter of a transaction or of an address that raises an error leaves the bytes
  of the object as they were. \<open>setSender\<close> and \<open>setPublicKey\<close> of an address receive
  an object of the right class and never raise.
\<close>

theorem failed_setter_leaves_bytes:
  "(isl (fst (setVersion val t)) \<longrightarrow> snd (setVersion val t) = t)
   \<and> fst (setSender a t) = Inr ()
   \<and> (isl (fst (setRecipient a t)) \<longrightarrow> snd (setRecipient a t) = t)
   \<and> (isl (fst (setValue val t)) \<longrightarrow> snd (setValue val t) = t)
   \<and> (isl (fst (setNonce val t)) \<longrightarrow> snd (setNonce val t) = t)
   \<and> (isl (fst (setSignature sig t)) \<longrightarrow> snd (setSignature sig t) = t)
   \<and> (isl (fst (setPrefix p t)) \<longrightarrow> snd (setPrefix p t) = t)
   \<and> (isl (fst (setName name t)) \<longrightarrow> snd (setName name t) = t)
   \<and> (isl (fst (setProfitPercent val t)) \<longrightarrow> snd (setProfitPercent val t) = t)
   \<and> (isl (fst (setFeePercent val t)) \<longrightarrow> snd (setFeePercent val t) = t)
   \<and> (isl (fst (adr_setPrefix p adr)) \<longrightarrow> snd (adr_setPrefix p adr) = adr)
   \<and> fst (adr_setPublicKey k adr) = Inr ()"
  by (simp add: failed_tx_setters setSender_unfold adr_setPublicKey_unfold)

theorem failed_setter_leaves_bytes_witness:
  "isl (fst (setVersion (Num 8) newTransaction))
   \<and> snd (setVersion (Num 8) newTransaction) = newTransaction
   \<and> isl (fst (setRecipient newAddress structureTransaction))
   \<and> snd (setRecipient newAddress structureTransaction) = structureTransaction
   \<and> isl (fst (setValue (Num 0) newTransaction))
   \<and> snd (setValue (Num 0) newTransaction) = newTransaction
   \<and> isl (fst (setNonce NonInt newTransaction))
   \<and> snd (setNonce NonInt newTransaction) = newTransaction
   \<and> isl (fst (setSignature [1, 2, 3] newTransaction))
   \<and> snd (setSignature [1, 2, 3] newTransaction) = newTransaction
   \<and> isl (fst (setPrefix ''ab1'' structureTransaction))
   \<and> snd (setPrefix ''ab1'' structureTransaction) = structureTransaction
   \<and> isl (fst (setName (replicate 36 65) structureTransaction))
   \<and> snd (setName (replicate 36 65) structureTransaction) = structureTransaction
   \<and> isl (fst (setProfitPercent (Num 99) structureTransaction))
   \<and> snd (setProfitPercent (Num 99) structureTransaction) = structureTransaction
   \<and> isl (fst (setFeePercent NotNumber structureTransaction))
   \<and> snd (setFeePercent NotNumber structureTransaction) = structureTransaction
   \<and> isl (fst (adr_setPrefix ''AB'' newAddress))
   \<and> snd (adr_setPrefix ''AB'' newAddress) = newAddress"
proof -
  have h: "isl (fst (setVersion (Num 8) newTransaction))"
    "isl (fst (setRecipient newAddress structureTransaction))"
    "isl (fst (setValue (Num 0) newTransaction))"
    "isl (fst (setNonce NonInt newTransaction))"
    "isl (fst (setSignature [1, 2, 3] newTransaction))"
    "isl (fst (setPrefix ''ab1'' structureTransaction))"
    "isl (fst (setName (replicate 36 65) structureTransaction))"
    "isl (fst (setProfitPercent (Num 99) structureTransaction))"
    "isl (fst (setFeePercent NotNumber structureTransaction))"
    "isl (fst (adr_setPrefix ''AB'' newAddress))"
    by code_simp+
  show ?thesis
    using h
      failed_setter_leaves_bytes [of "Num 8" newTransaction newAddress "[1, 2, 3]" "''ab1''"
        "replicate 36 65" newAddress]
      failed_setter_leaves_bytes [of "Num 0" newTransaction newAddress "[1, 2, 3]" "''ab1''"
        "replicate 36 65" newAddress]
      failed_setter_leaves_bytes [of NonInt newTransaction newAddress "[1, 2, 3]" "''AB''"
        "replicate 36 65" newAddress]
      failed_setter_leaves_bytes [of "Num 99" structureTransaction newAddress "[1, 2, 3]" "''ab1''"
        "replicate 36 65" newAddress]
      failed_setter_leaves_bytes [of NotNumber structureTransaction newAddress "[1, 2, 3]" "''ab1''"
        "replicate 36 65" newAddress]
    by simp
qed

section \<open>Bech32: the bit accumulators\<close>

lemma toInt32_range: "- (2 ^ 31) \<le> toInt32 x \<and> toInt32 x < 2 ^ 31"
  unfolding toInt32_def
  using signed_take_bit_int_greater_eq_minus_exp [of 31 x] signed_take_bit_int_less_exp [of 31 x]
  by blast

lemma toInt32_idem: "toInt32 (toInt32 x) = toInt32 x"
  by (simp add: toInt32_def)

lemma take_bit_toInt32: "k \<le> 32 \<Longrightarrow> take_bit k (toInt32 x) = take_bit k x"
  by (simp add: toInt32_def take_bit_signed_take_bit)

lemma take_drop_toInt32:
  "b + k \<le> 32 \<Longrightarrow> take_bit k (drop_bit b (toInt32 x)) = take_bit k (drop_bit b x)"
proof (rule bit_eqI)
  fix n
  assume a: "b + k \<le> 32"
  show "bit (take_bit k (drop_bit b (toInt32 x))) n = bit (take_bit k (drop_bit b x)) n"
  proof (cases "n < k")
    case True
    then have "min 31 (b + n) = b + n" using a by simp
    then show ?thesis by (simp add: toInt32_def bit_simps)
  next
    case False
    then show ?thesis by (simp add: bit_simps)
  qed
qed

lemma toInt32_push: "toInt32 (push_bit s (toInt32 x)) = toInt32 (push_bit s x)"
proof (rule bit_eqI)
  fix n
  have "min 31 (min 31 n - s) = min 31 n - s" by simp
  then show "bit (toInt32 (push_bit s (toInt32 x))) n = bit (toInt32 (push_bit s x)) n"
    by (simp add: toInt32_def bit_simps)
qed

lemma toInt32_or: "toInt32 (a OR b) = toInt32 a OR toInt32 b"
  unfolding toInt32_def
  by (rule bit_eqI) (auto simp add: bit_simps)

lemma js_and_mask: "k \<le> 31 \<Longrightarrow> js_and x (mask k) = take_bit k x"
proof -
  assume k: "k \<le> 31"
  have "(mask k :: int) < 2 ^ 31"
    using k by (metis mask_eq_exp_minus_1 diff_less_eq less_add_one order_less_le_trans
        power_increasing one_le_numeral)
  then have "toInt32 (mask k) = mask k" by (intro toInt32_nonneg) simp_all
  then show ?thesis using k by (simp add: js_and_def take_bit_toInt32 flip: take_bit_eq_mask)
qed

lemma js_and_31: "js_and x 0x1f = x mod 32"
  using js_and_mask [of 5 x] by (simp add: mask_eq_exp_minus_1 take_bit_eq_mod)

lemma js_and_255: "js_and x 0xff = x mod 256"
  using js_and_mask [of 8 x] by (simp add: mask_eq_exp_minus_1 take_bit_eq_mod)

lemma push_bit_disjoint:
  fixes d :: int
  assumes "0 \<le> d" "d < 2 ^ s"
  shows "push_bit s N + d = push_bit s N OR d"
proof (rule disjunctive_add_eq_or)
  have d: "take_bit s d = d" using assms by (simp add: take_bit_int_eq_self)
  have "push_bit s N AND take_bit s d = 0"
    by (rule bit_eqI) (auto simp add: bit_simps)
  then show "push_bit s N AND d = 0" by (simp add: d)
qed

lemma acc_or:
  assumes "0 \<le> d" "d < 2 ^ s" "s < 32"
  shows "js_or (js_shl (toInt32 N) s) d = toInt32 (N * 2 ^ s + d)"
proof -
  have "js_shl (toInt32 N) s = toInt32 (push_bit s N)"
    using assms(3) by (simp add: js_shl_def toInt32_idem toInt32_push)
  then have "js_or (js_shl (toInt32 N) s) d = toInt32 (push_bit s N) OR toInt32 d"
    by (simp add: js_or_def toInt32_idem)
  also have "\<dots> = toInt32 (push_bit s N OR d)" by (simp add: toInt32_or)
  also have "\<dots> = toInt32 (push_bit s N + d)"
    using push_bit_disjoint [OF assms(1) assms(2), of N] by simp
  finally show ?thesis by (simp add: push_bit_eq_mult)
qed

lemma acc_or8: "0 \<le> d \<Longrightarrow> d < 256 \<Longrightarrow> js_or (js_shl (toInt32 N) 8) d = toInt32 (N * 256 + d)"
  using acc_or [of d 8 N] by simp

lemma acc_or5: "0 \<le> d \<Longrightarrow> d < 32 \<Longrightarrow> js_or (js_shl (toInt32 N) 5) d = toInt32 (N * 32 + d)"
  using acc_or [of d 5 N] by simp

lemma js_sar_acc: "b < 32 \<Longrightarrow> js_sar (toInt32 N) b = drop_bit b (toInt32 N)"
  by (simp add: js_sar_def toInt32_idem)

lemma ext5: "b + 5 \<le> 32 \<Longrightarrow> js_and (js_sar (toInt32 N) b) 0x1f = (N div 2 ^ b) mod 32"
proof -
  assume b: "b + 5 \<le> 32"
  have "js_and (js_sar (toInt32 N) b) (mask 5) = take_bit 5 (drop_bit b (toInt32 N))"
    using b by (simp add: js_sar_acc js_and_mask)
  also have "\<dots> = take_bit 5 (drop_bit b N)" using b by (rule take_drop_toInt32)
  finally show ?thesis by (simp add: mask_eq_exp_minus_1 take_bit_eq_mod drop_bit_eq_div)
qed

lemma ext8: "b + 8 \<le> 32 \<Longrightarrow> js_and (js_sar (toInt32 N) b) 0xff = (N div 2 ^ b) mod 256"
proof -
  assume b: "b + 8 \<le> 32"
  have "js_and (js_sar (toInt32 N) b) (mask 8) = take_bit 8 (drop_bit b (toInt32 N))"
    using b by (simp add: js_sar_acc js_and_mask)
  also have "\<dots> = take_bit 8 (drop_bit b N)" using b by (rule take_drop_toInt32)
  finally show ?thesis by (simp add: mask_eq_exp_minus_1 take_bit_eq_mod drop_bit_eq_div)
qed

lemma shl_ext5: "s < 32 \<Longrightarrow> js_and (js_shl (toInt32 N) s) 0x1f = (N * 2 ^ s) mod 32"
proof -
  assume s: "s < 32"
  have "js_shl (toInt32 N) s = toInt32 (push_bit s N)"
    using s by (simp add: js_shl_def toInt32_idem toInt32_push)
  then have "js_and (js_shl (toInt32 N) s) (mask 5) = take_bit 5 (push_bit s N)"
    by (simp add: js_and_mask take_bit_toInt32)
  then show ?thesis by (simp add: mask_eq_exp_minus_1 take_bit_eq_mod push_bit_eq_mult)
qed

lemma shl_ext8: "s < 32 \<Longrightarrow> js_and (js_shl (toInt32 N) s) 0xff = (N * 2 ^ s) mod 256"
proof -
  assume s: "s < 32"
  have "js_shl (toInt32 N) s = toInt32 (push_bit s N)"
    using s by (simp add: js_shl_def toInt32_idem toInt32_push)
  then have "js_and (js_shl (toInt32 N) s) (mask 8) = take_bit 8 (push_bit s N)"
    by (simp add: js_and_mask take_bit_toInt32)
  then show ?thesis by (simp add: mask_eq_exp_minus_1 take_bit_eq_mod push_bit_eq_mult)
qed

subsection \<open>Digit lists\<close>

lemma be_val_snoc: "be_val b (ds @ [d]) = be_val b ds * b + d"
  by (simp add: be_val_def)

lemma foldl_be_val: "foldl (\<lambda>a d. a * b + d) N ds = N * b ^ length ds + be_val b ds"
proof (induction ds rule: rev_induct)
  case Nil
  then show ?case by (simp add: be_val_def)
next
  case (snoc d ds)
  then show ?case by (simp add: be_val_snoc algebra_simps)
qed

lemma length_be_digits [simp]: "length (be_digits b n x) = n"
  by (induction n arbitrary: x) simp_all

lemma be_digits_range:
  "0 < b \<Longrightarrow> list_all (\<lambda>d. 0 \<le> d \<and> d < b) (be_digits b n x)"
  by (induction n arbitrary: x) simp_all

lemma be_val_nonneg: "0 \<le> b \<Longrightarrow> list_all (\<lambda>d. 0 \<le> d \<and> d < b) ds \<Longrightarrow> 0 \<le> be_val b ds"
proof (induction ds rule: rev_induct)
  case Nil
  then show ?case by (simp add: be_val_def)
next
  case (snoc d ds)
  then show ?case by (simp add: be_val_snoc)
qed

lemma be_val_less:
  "0 < b \<Longrightarrow> list_all (\<lambda>d. 0 \<le> d \<and> d < b) ds \<Longrightarrow> be_val b ds < b ^ length ds"
proof (induction ds rule: rev_induct)
  case Nil
  then show ?case by (simp add: be_val_def)
next
  case (snoc d ds)
  then have "be_val b ds + 1 \<le> b ^ length ds" by simp
  then have "(be_val b ds + 1) * b \<le> b ^ length ds * b"
    using snoc.prems(1) by (simp add: mult_right_mono)
  moreover have "d < b" using snoc.prems by simp
  ultimately show ?case by (simp add: be_val_snoc algebra_simps)
qed

lemma be_digits_be_val:
  "1 < b \<Longrightarrow> list_all (\<lambda>d. 0 \<le> d \<and> d < b) ds \<Longrightarrow> be_digits b (length ds) (be_val b ds) = ds"
proof (induction ds rule: rev_induct)
  case Nil
  then show ?case by simp
next
  case (snoc d ds)
  have d: "0 \<le> d" "d < b" using snoc.prems by simp_all
  have "(be_val b ds * b + d) div b = be_val b ds"
    using d snoc.prems(1) by (simp add: div_pos_pos_trivial)
  moreover have "(be_val b ds * b + d) mod b = d"
    using d by (simp add: mod_pos_pos_trivial)
  ultimately show ?case using snoc by (simp add: be_val_snoc)
qed

lemma be_val_be_digits:
  "0 < b \<Longrightarrow> 0 \<le> x \<Longrightarrow> x < b ^ n \<Longrightarrow> be_val b (be_digits b n x) = x"
proof (induction n arbitrary: x)
  case 0
  then show ?case by (simp add: be_val_def)
next
  case (Suc n)
  have "x div b < b ^ n"
  proof (rule ccontr)
    assume "\<not> x div b < b ^ n"
    then have "b * b ^ n \<le> b * (x div b)" using Suc.prems(1) by simp
    moreover have "b * (x div b) \<le> x"
      using Suc.prems(1) mult_div_mod_eq [of b x] pos_mod_sign [of b x] by linarith
    ultimately show False using Suc.prems(3) by simp
  qed
  moreover have "0 \<le> x div b" using Suc.prems by (simp add: pos_imp_zdiv_nonneg_iff)
  ultimately have "be_val b (be_digits b n (x div b)) = x div b"
    using Suc.IH Suc.prems(1) by simp
  then show ?case by (simp add: be_val_snoc)
qed

subsection \<open>The regrouping loops\<close>

lemma length_bech32Alphabet: "length bech32Alphabet = 32"
  by (simp add: bech32Alphabet_def)

lemma charAt_bech32: "0 \<le> k \<Longrightarrow> k < 32 \<Longrightarrow> charAt bech32Alphabet (nat k) = [bech32Char k]"
  by (simp add: charAt_def length_bech32Alphabet bech32Char_def)

lemma div_pow2_split:
  fixes N :: int
  assumes "k \<le> B"
  shows "N div 2 ^ (B - k) div 2 ^ k = N div 2 ^ B"
proof -
  have "(2::int) ^ (B - k) * 2 ^ k = 2 ^ B"
    using assms by (simp flip: power_add)
  moreover have "N div (2 ^ (B - k) * 2 ^ k) = N div 2 ^ (B - k) div 2 ^ k"
    by (rule zdiv_zmult2_eq) simp
  ultimately show ?thesis by simp
qed

lemma emit5_inv:
  "B \<le> 27 \<Longrightarrow>
   emit5 (toInt32 N) B (map bech32Char (be_digits 32 c (N div 2 ^ B))) =
     (B mod 5, map bech32Char (be_digits 32 (c + B div 5) (N div 2 ^ (B mod 5))))"
proof (induction B arbitrary: c rule: less_induct)
  case (less B)
  show ?case
  proof (cases "B < 5")
    case True
    then show ?thesis by (simp add: emit5.simps)
  next
    case False
    define k where "k = (N div 2 ^ (B - 5)) mod 32"
    have k: "0 \<le> k" "k < 32" by (simp_all add: k_def)
    have e: "js_and (js_sar (toInt32 N) (B - 5)) 0x1f = k"
      unfolding k_def using less.prems False by (intro ext5) simp
    have d: "N div 2 ^ (B - 5) div 32 = N div 2 ^ B"
      using div_pow2_split [of 5 B N] False by simp
    have r: "map bech32Char (be_digits 32 c (N div 2 ^ B)) @ [bech32Char k] =
        map bech32Char (be_digits 32 (Suc c) (N div 2 ^ (B - 5)))"
      by (simp add: d k_def)
    have "emit5 (toInt32 N) B (map bech32Char (be_digits 32 c (N div 2 ^ B))) =
        emit5 (toInt32 N) (B - 5) (map bech32Char (be_digits 32 (Suc c) (N div 2 ^ (B - 5))))"
      using False by (subst emit5.simps) (simp add: e charAt_bech32 [OF k] r)
    also have "\<dots> = ((B - 5) mod 5,
        map bech32Char (be_digits 32 (Suc c + (B - 5) div 5) (N div 2 ^ ((B - 5) mod 5))))"
      using less.prems False by (intro less.IH) simp_all
    also have "(B - 5) mod 5 = B mod 5" using False by (simp add: le_mod_geq)
    also have "Suc c + (B - 5) div 5 = c + B div 5"
      using False by (simp add: le_div_geq)
    finally show ?thesis .
  qed
qed

lemma regroup_div:
  fixes a b c :: nat
  shows "a div c + (a mod c + b) div c = (a + b) div c"
proof (cases "c = 0")
  case True
  then show ?thesis by simp
next
  case False
  have "a + b = (a mod c + b) + a div c * c" by simp
  then have "(a + b) div c = ((a mod c + b) + a div c * c) div c" by (rule arg_cong)
  also have "\<dots> = a div c + (a mod c + b) div c" using False by (rule div_mult_self1)
  finally show ?thesis by simp
qed

lemma regroup_mod:
  fixes a b c :: nat
  shows "(a mod c + b) mod c = (a + b) mod c"
  by (simp add: mod_add_left_eq)
lemma shift_in_byte:
  fixes N d :: int
  assumes "0 \<le> d" "d < 2 ^ k"
  shows "(N * 2 ^ k + d) div 2 ^ (bits + k) = N div 2 ^ bits"
proof -
  have "(N * 2 ^ k + d) div 2 ^ k = N" using assms by simp
  moreover have "(N * 2 ^ k + d) div (2 ^ k * 2 ^ bits) = (N * 2 ^ k + d) div 2 ^ k div 2 ^ bits"
    by (rule zdiv_zmult2_eq) simp
  ultimately show ?thesis by (simp add: power_add mult.commute)
qed

lemma convert8to5Loop_inv:
  "list_all byte ds \<Longrightarrow> bits < 5 \<Longrightarrow>
   convert8to5Loop ds (toInt32 N) bits (map bech32Char (be_digits 32 c (N div 2 ^ bits))) =
     (toInt32 (foldl (\<lambda>a d. a * 256 + d) N ds),
      (bits + 8 * length ds) mod 5,
      map bech32Char (be_digits 32 (c + (bits + 8 * length ds) div 5)
        (foldl (\<lambda>a d. a * 256 + d) N ds div 2 ^ ((bits + 8 * length ds) mod 5))))"
proof (induction ds arbitrary: N bits c)
  case Nil
  then show ?case by simp
next
  case (Cons d ds)
  define N1 where "N1 = N * 256 + d"
  have d: "0 \<le> d" "d < 256" using Cons.prems(1) by (simp_all add: byte_def)
  have v: "js_or (js_shl (toInt32 N) 8) d = toInt32 N1"
    unfolding N1_def using d by (rule acc_or8)
  have s: "N div 2 ^ bits = N1 div 2 ^ (bits + 8)"
    unfolding N1_def using shift_in_byte [of d 8 N bits] d by simp
  have e: "emit5 (toInt32 N1) (bits + 8) (map bech32Char (be_digits 32 c (N div 2 ^ bits))) =
      ((bits + 8) mod 5,
       map bech32Char (be_digits 32 (c + (bits + 8) div 5) (N1 div 2 ^ ((bits + 8) mod 5))))"
    unfolding s using Cons.prems(2) by (intro emit5_inv) simp
  have ih: "convert8to5Loop ds (toInt32 N1) ((bits + 8) mod 5)
      (map bech32Char (be_digits 32 (c + (bits + 8) div 5) (N1 div 2 ^ ((bits + 8) mod 5)))) =
     (toInt32 (foldl (\<lambda>a d. a * 256 + d) N1 ds),
      ((bits + 8) mod 5 + 8 * length ds) mod 5,
      map bech32Char (be_digits 32 (c + (bits + 8) div 5 + ((bits + 8) mod 5 + 8 * length ds) div 5)
        (foldl (\<lambda>a d. a * 256 + d) N1 ds div 2 ^ (((bits + 8) mod 5 + 8 * length ds) mod 5))))"
    using Cons.prems(1) by (intro Cons.IH) simp_all
  have a1: "((bits + 8) mod 5 + 8 * length ds) mod 5 = (bits + 8 * length (d # ds)) mod 5"
    using regroup_mod [of "bits + 8" 5 "8 * length ds"] by (simp add: add.assoc add.commute)
  have a2: "c + (bits + 8) div 5 + ((bits + 8) mod 5 + 8 * length ds) div 5 =
      c + (bits + 8 * length (d # ds)) div 5"
    using regroup_div [of "bits + 8" 5 "8 * length ds"] by (simp add: add.assoc add.commute)
  show ?case
    unfolding a1 [symmetric] a2 [symmetric]
    by (simp add: v e ih N1_def [symmetric])
qed

lemma convert8to5_32:
  assumes "list_all byte data" "length data = 32"
  shows "convert8to5 data = map bech32Char (be_digits 32 52 (be_val 256 data * 16))"
proof -
  define N where "N = be_val 256 data"
  have f: "foldl (\<lambda>a d. a * 256 + d) 0 data = N" by (simp add: N_def be_val_def)
  have z: "toInt32 0 = 0" by (simp add: toInt32_def)
  have "convert8to5Loop data (toInt32 0) 0 (map bech32Char (be_digits 32 0 (0 div 2 ^ 0))) =
      (toInt32 N, (0 + 8 * length data) mod 5,
       map bech32Char (be_digits 32 (0 + (0 + 8 * length data) div 5)
         (N div 2 ^ ((0 + 8 * length data) mod 5))))"
    unfolding f [symmetric] using assms(1) by (intro convert8to5Loop_inv) simp_all
  then have l: "convert8to5Loop data 0 0 [] =
      (toInt32 N, 1, map bech32Char (be_digits 32 51 (N div 2)))"
    by (simp add: z assms(2))
  define k where "k = (N * 16) mod 32"
  have k: "0 \<le> k" "k < 32" by (simp_all add: k_def)
  have e: "js_and (js_shl (toInt32 N) 4) 0x1f = k"
    using shl_ext5 [of 4 N] by (simp add: k_def)
  have d: "N * 16 div 32 = N div 2" by simp
  have "be_digits 32 52 (N * 16) = be_digits 32 51 (N div 2) @ [k]"
    using be_digits.simps(2) [of 32 51 "N * 16"] by (simp add: d k_def)
  then show ?thesis
    by (simp add: convert8to5_def l e charAt_bech32 [OF k] N_def [symmetric])
qed

lemma emit8_inv:
  "B \<le> 24 \<Longrightarrow>
   emit8 (toInt32 M) B (be_digits 256 c (M div 2 ^ B)) =
     (B mod 8, be_digits 256 (c + B div 8) (M div 2 ^ (B mod 8)))"
proof (induction B arbitrary: c rule: less_induct)
  case (less B)
  show ?case
  proof (cases "B < 8")
    case True
    then show ?thesis by (simp add: emit8.simps)
  next
    case False
    have e: "js_and (js_sar (toInt32 M) (B - 8)) 0xff = (M div 2 ^ (B - 8)) mod 256"
      using less.prems False by (intro ext8) simp
    have d: "M div 2 ^ (B - 8) div 256 = M div 2 ^ B"
      using div_pow2_split [of 8 B M] False by simp
    have r: "be_digits 256 c (M div 2 ^ B) @ [(M div 2 ^ (B - 8)) mod 256] =
        be_digits 256 (Suc c) (M div 2 ^ (B - 8))"
      by (simp add: d)
    have "emit8 (toInt32 M) B (be_digits 256 c (M div 2 ^ B)) =
        emit8 (toInt32 M) (B - 8) (be_digits 256 (Suc c) (M div 2 ^ (B - 8)))"
      using False by (subst emit8.simps) (simp add: e r)
    also have "\<dots> = ((B - 8) mod 8,
        be_digits 256 (Suc c + (B - 8) div 8) (M div 2 ^ ((B - 8) mod 8)))"
      using less.prems False by (intro less.IH) simp_all
    also have "(B - 8) mod 8 = B mod 8" using False by (simp add: le_mod_geq)
    also have "Suc c + (B - 8) div 8 = c + B div 8"
      using False by (simp add: le_div_geq)
    finally show ?thesis .
  qed
qed

lemma convert5to8Loop_inv:
  "list_all (\<lambda>d. 0 \<le> d \<and> d < 32) ds \<Longrightarrow> bits < 8 \<Longrightarrow>
   convert5to8Loop ds (toInt32 M) bits (be_digits 256 c (M div 2 ^ bits)) =
     (toInt32 (foldl (\<lambda>a d. a * 32 + d) M ds),
      (bits + 5 * length ds) mod 8,
      be_digits 256 (c + (bits + 5 * length ds) div 8)
        (foldl (\<lambda>a d. a * 32 + d) M ds div 2 ^ ((bits + 5 * length ds) mod 8)))"
proof (induction ds arbitrary: M bits c)
  case Nil
  then show ?case by simp
next
  case (Cons d ds)
  define M1 where "M1 = M * 32 + d"
  have d: "0 \<le> d" "d < 32" using Cons.prems(1) by simp_all
  have v: "js_or (js_shl (toInt32 M) 5) d = toInt32 M1"
    unfolding M1_def using d by (rule acc_or5)
  have s: "M div 2 ^ bits = M1 div 2 ^ (bits + 5)"
    unfolding M1_def using shift_in_byte [of d 5 M bits] d by simp
  have e: "emit8 (toInt32 M1) (bits + 5) (be_digits 256 c (M div 2 ^ bits)) =
      ((bits + 5) mod 8, be_digits 256 (c + (bits + 5) div 8) (M1 div 2 ^ ((bits + 5) mod 8)))"
    unfolding s using Cons.prems(2) by (intro emit8_inv) simp
  have ih: "convert5to8Loop ds (toInt32 M1) ((bits + 5) mod 8)
      (be_digits 256 (c + (bits + 5) div 8) (M1 div 2 ^ ((bits + 5) mod 8))) =
     (toInt32 (foldl (\<lambda>a d. a * 32 + d) M1 ds),
      ((bits + 5) mod 8 + 5 * length ds) mod 8,
      be_digits 256 (c + (bits + 5) div 8 + ((bits + 5) mod 8 + 5 * length ds) div 8)
        (foldl (\<lambda>a d. a * 32 + d) M1 ds div 2 ^ (((bits + 5) mod 8 + 5 * length ds) mod 8)))"
    using Cons.prems(1) by (intro Cons.IH) simp_all
  have a1: "((bits + 5) mod 8 + 5 * length ds) mod 8 = (bits + 5 * length (d # ds)) mod 8"
    using regroup_mod [of "bits + 5" 8 "5 * length ds"] by (simp add: add.assoc add.commute)
  have a2: "c + (bits + 5) div 8 + ((bits + 5) mod 8 + 5 * length ds) div 8 =
      c + (bits + 5 * length (d # ds)) div 8"
    using regroup_div [of "bits + 5" 8 "5 * length ds"] by (simp add: add.assoc add.commute)
  show ?case
    unfolding a1 [symmetric] a2 [symmetric]
    by (simp add: v e ih M1_def [symmetric])
qed

lemma indexOf_bech32_all:
  "list_all (\<lambda>k. indexOf bech32Alphabet [bech32Char k] = k) (map int [0..<32])"
  by code_simp

lemma indexOf_bech32: "0 \<le> k \<Longrightarrow> k < 32 \<Longrightarrow> indexOf bech32Alphabet [bech32Char k] = k"
proof -
  assume k: "0 \<le> k" "k < 32"
  then have "k \<in> set (map int [0..<32])"
    by (auto simp add: image_iff intro!: bexI [where x = "nat k"])
  then show ?thesis using indexOf_bech32_all unfolding list_all_iff by blast
qed

lemma strToBytes_chars:
  "list_all (\<lambda>d. 0 \<le> d \<and> d < 32) ds \<Longrightarrow> strToBytes (map bech32Char ds) = ds"
  by (induction ds) (simp_all add: indexOf_bech32)

lemma strToBytes_append: "strToBytes (xs @ ys) = strToBytes xs @ strToBytes ys"
  by (induction xs) simp_all

lemma checkAlphabet_chars:
  "list_all (\<lambda>d. 0 \<le> d \<and> d < 32) ds \<Longrightarrow> checkAlphabet (map bech32Char ds) = Inr ()"
  by (induction ds) (simp_all add: indexOf_bech32)

lemma checkAlphabet_append:
  "checkAlphabet xs = Inr () \<Longrightarrow> checkAlphabet ys = Inr () \<Longrightarrow> checkAlphabet (xs @ ys) = Inr ()"
  by (induction xs) (simp_all split: if_splits)

lemma byte_list: "list_all byte ds = list_all (\<lambda>d. 0 \<le> d \<and> d < 256) ds"
  by (induction ds) (simp_all add: byte_def)

lemma convert5to8_convert8to5:
  assumes "list_all byte data" "length data = 32"
  shows "convert5to8 (convert8to5 data) = Inr data"
proof -
  define N where "N = be_val 256 data"
  define ds where "ds = be_digits 32 52 (N * 16)"
  have b: "list_all (\<lambda>d. 0 \<le> d \<and> d < 256) data" using assms(1) by (simp add: byte_list)
  have N0: "0 \<le> N" unfolding N_def using b by (intro be_val_nonneg) simp_all
  have "N < 256 ^ length data" unfolding N_def using b by (intro be_val_less) simp_all
  then have N1: "N * 16 < 32 ^ 52" by (simp add: assms(2))
  have r: "list_all (\<lambda>d. 0 \<le> d \<and> d < 32) ds"
    unfolding ds_def by (rule be_digits_range) simp
  have len: "length ds = 52" by (simp add: ds_def)
  have enc: "convert8to5 data = map bech32Char ds"
    unfolding ds_def N_def using assms by (rule convert8to5_32)
  have v: "be_val 32 ds = N * 16"
    unfolding ds_def using N0 N1 by (intro be_val_be_digits) simp_all
  have f: "foldl (\<lambda>a d. a * 32 + d) 0 ds = N * 16" using v by (simp add: be_val_def)
  have z: "toInt32 0 = 0" by (simp add: toInt32_def)
  have "convert5to8Loop ds (toInt32 0) 0 (be_digits 256 0 (0 div 2 ^ 0)) =
      (toInt32 (foldl (\<lambda>a d. a * 32 + d) 0 ds), (0 + 5 * length ds) mod 8,
       be_digits 256 (0 + (0 + 5 * length ds) div 8)
         (foldl (\<lambda>a d. a * 32 + d) 0 ds div 2 ^ ((0 + 5 * length ds) mod 8)))"
    using r by (intro convert5to8Loop_inv) simp_all
  then have l: "convert5to8Loop ds 0 0 [] = (toInt32 (N * 16), 4, be_digits 256 32 N)"
    by (simp add: z len f)
  have d: "be_digits 256 32 N = data"
    using be_digits_be_val [of 256 data] b by (simp add: N_def assms(2))
  have c: "js_and (js_shl (toInt32 (N * 16)) 4) 0xff = 0"
    using shl_ext8 [of 4 "N * 16"] by simp
  show ?thesis
    by (simp add: enc convert5to8_def strToBytes_chars [OF r] l d c)
qed

subsection \<open>The checksum polynomial\<close>

lemma tb30_range: "take_bit 30 x = x \<Longrightarrow> 0 \<le> x \<and> x < 2 ^ 30" for x :: int
  by (metis take_bit_int_less_exp take_bit_nonnegative)

lemma tb30_toInt32: "take_bit 30 x = x \<Longrightarrow> toInt32 x = x"
proof -
  assume "take_bit 30 x = x"
  then have "0 \<le> x \<and> x < 2 ^ 30" by (rule tb30_range)
  then show ?thesis by (intro toInt32_nonneg) simp_all
qed

lemma tb30_xor: "take_bit 30 a = a \<Longrightarrow> take_bit 30 b = b \<Longrightarrow> take_bit 30 (a XOR b) = a XOR b"
  for a b :: int
  by simp

lemma js_xor_tb30: "take_bit 30 a = a \<Longrightarrow> take_bit 30 b = b \<Longrightarrow> js_xor a b = a XOR b"
  by (simp add: js_xor_def tb30_toInt32)

lemma gen_tb30: "j < 5 \<Longrightarrow> take_bit 30 (gen ! j) = gen ! j"
proof -
  assume "j < 5"
  then have "j = 0 \<or> j = 1 \<or> j = 2 \<or> j = 3 \<or> j = 4" by linarith
  then show ?thesis by (auto simp add: gen_def take_bit_eq_mod)
qed

lemma polyModGen_linear:
  "list_all (\<lambda>j. j < 5) js \<Longrightarrow> take_bit 30 chk = chk \<Longrightarrow>
   polyModGen tp js chk = chk XOR polyModGen tp js 0
   \<and> take_bit 30 (polyModGen tp js 0) = polyModGen tp js 0"
proof (induction js arbitrary: chk)
  case Nil
  then show ?case by simp
next
  case (Cons j js)
  define g where "g = (if js_and (js_sar tp j) 1 \<noteq> 0 then gen ! j else 0)"
  have g: "take_bit 30 g = g" using Cons.prems(1) by (simp add: g_def gen_tb30)
  have js: "list_all (\<lambda>j. j < 5) js" using Cons.prems(1) by simp
  have x: "js_xor chk g = chk XOR g" using Cons.prems(2) g by (rule js_xor_tb30)
  have z: "js_xor 0 g = g" using js_xor_tb30 [of 0 g] g by simp
  have cg: "take_bit 30 (chk XOR g) = chk XOR g" using Cons.prems(2) g by (rule tb30_xor)
  note i1 = Cons.IH [OF js cg]
  note i2 = Cons.IH [OF js g]
  have "polyModGen tp (j # js) chk = (chk XOR g) XOR polyModGen tp js 0"
    using i1 by (simp add: g_def [symmetric] x)
  moreover have e0: "polyModGen tp (j # js) 0 = g XOR polyModGen tp js 0"
    using i2 by (simp add: g_def [symmetric] z)
  moreover have "take_bit 30 (g XOR polyModGen tp js 0) = g XOR polyModGen tp js 0"
    using g i2 by (intro tb30_xor) simp_all
  ultimately show ?case by (simp add: xor.assoc del: polyModGen.simps)
qed

lemma polyModStep_eq:
  assumes "take_bit 30 chk = chk" "take_bit 30 v = v"
  shows "polyModStep chk v =
      push_bit 5 (take_bit 25 chk) XOR v XOR polyModGen (drop_bit 25 chk) [0, 1, 2, 3, 4] 0"
    and "take_bit 30 (polyModStep chk v) = polyModStep chk v"
proof -
  define A where "A = push_bit 5 (take_bit 25 chk)"
  have m: "(0x1ffffff::int) = mask 25" by (simp add: mask_eq_exp_minus_1)
  have t: "js_sar chk 25 = drop_bit 25 chk"
    using assms(1) by (simp add: js_sar_def tb30_toInt32)
  have a1: "js_and chk 0x1ffffff = take_bit 25 chk"
    unfolding m by (rule js_and_mask) simp
  have a2: "take_bit 30 A = A"
    unfolding A_def push_bit_take_bit by simp
  have "toInt32 (take_bit 25 chk) = take_bit 25 chk"
    by (intro toInt32_nonneg) (simp_all add: order_less_trans [OF take_bit_int_less_exp])
  then have a3: "js_shl (take_bit 25 chk) 5 = A"
    using a2 by (simp add: js_shl_def A_def [symmetric] tb30_toInt32)
  have x: "js_xor A v = A XOR v" using a2 assms(2) by (rule js_xor_tb30)
  have xt: "take_bit 30 (A XOR v) = A XOR v" using a2 assms(2) by (rule tb30_xor)
  have js: "list_all (\<lambda>j. j < 5) [0, 1, 2, 3, 4 :: nat]" by simp
  note l = polyModGen_linear [OF js xt, of "drop_bit 25 chk"]
  have e: "polyModStep chk v = A XOR v XOR polyModGen (drop_bit 25 chk) [0, 1, 2, 3, 4] 0"
    unfolding polyModStep_def Let_def t a1 a3 x using l by (simp add: xor.assoc del: polyModGen.simps)
  then show "polyModStep chk v =
      push_bit 5 (take_bit 25 chk) XOR v XOR polyModGen (drop_bit 25 chk) [0, 1, 2, 3, 4] 0"
    by (simp only: A_def)
  have "take_bit 30 (A XOR v XOR polyModGen (drop_bit 25 chk) [0, 1, 2, 3, 4] 0) =
      A XOR v XOR polyModGen (drop_bit 25 chk) [0, 1, 2, 3, 4] 0"
    using a2 assms(2) l by (intro tb30_xor) (simp_all del: polyModGen.simps)
  then show "take_bit 30 (polyModStep chk v) = polyModStep chk v" by (simp only: e)
qed

lemma polyModStep_value:
  assumes "take_bit 30 chk = chk" "take_bit 30 v = v"
  shows "polyModStep chk v = polyModStep chk 0 XOR v"
proof -
  have z: "take_bit 30 (0::int) = 0" by simp
  show ?thesis
    unfolding polyModStep_eq(1) [OF assms] polyModStep_eq(1) [OF assms(1) z]
    by (simp add: xor.assoc xor.commute xor.left_commute del: polyModGen.simps)
qed

lemma polyModStep_low:
  assumes "take_bit 30 chk = chk" "take_bit 25 y = y"
  shows "polyModStep (chk XOR y) 0 = polyModStep chk 0 XOR push_bit 5 y"
proof -
  have yr: "0 \<le> y" "y < 2 ^ 25"
    using take_bit_nonnegative [of 25 y] take_bit_int_less_exp [of 25 y] assms(2) by simp_all
  have y30: "take_bit 30 y = y"
    using yr by (intro take_bit_int_eq_self) simp_all
  have c: "take_bit 30 (chk XOR y) = chk XOR y" using assms(1) y30 by (rule tb30_xor)
  have z: "take_bit 30 (0::int) = 0" by simp
  have "drop_bit 25 y = 0"
    using yr by (simp add: drop_bit_eq_div)
  then have d: "drop_bit 25 (chk XOR y) = drop_bit 25 chk" by simp
  have t: "take_bit 25 (chk XOR y) = take_bit 25 chk XOR y" by (simp add: assms(2))
  show ?thesis
    unfolding polyModStep_eq(1) [OF c z] polyModStep_eq(1) [OF assms(1) z] d t
    by (simp add: xor.assoc xor.commute xor.left_commute del: polyModGen.simps)
qed

lemma push_bit_disjoint_xor:
  fixes d :: int
  assumes "0 \<le> d" "d < 2 ^ s"
  shows "push_bit s N XOR d = push_bit s N + d"
proof -
  have d: "take_bit s d = d" using assms by (simp add: take_bit_int_eq_self)
  have "push_bit s N AND take_bit s d = 0"
    by (rule bit_eqI) (auto simp add: bit_simps)
  then have "push_bit s N AND d = 0" by (simp add: d)
  then show ?thesis by (rule disjunctive_add_eq_xor [symmetric])
qed

lemma small_tb30: "0 \<le> c \<Longrightarrow> c < 32 \<Longrightarrow> take_bit 30 c = c" for c :: int
  by (intro take_bit_int_eq_self) simp_all

lemma foldl_polyModStep_tb30:
  "take_bit 30 s = s \<Longrightarrow> list_all (\<lambda>v. take_bit 30 v = v) vs \<Longrightarrow>
   take_bit 30 (foldl polyModStep s vs) = foldl polyModStep s vs"
  by (induction vs arbitrary: s) (simp_all add: polyModStep_eq(2))

lemma polyMod_tail:
  "take_bit 30 s = s \<Longrightarrow> 0 \<le> y \<Longrightarrow> y < 2 ^ (5 * k) \<Longrightarrow> k + length cs \<le> 6 \<Longrightarrow>
   list_all (\<lambda>c. 0 \<le> c \<and> c < 32) cs \<Longrightarrow>
   foldl polyModStep (s XOR y) cs =
     foldl polyModStep s (replicate (length cs) 0) XOR foldl (\<lambda>a c. a * 32 + c) y cs"
proof (induction cs arbitrary: s y k)
  case Nil
  then show ?case by simp
next
  case (Cons c cs)
  have k: "k \<le> 5" using Cons.prems(4) by simp
  have c: "0 \<le> c" "c < 32" using Cons.prems(5) by simp_all
  have "(2::int) ^ (5 * k) \<le> 2 ^ 25" using k by (intro power_increasing) simp_all
  then have y25: "y < 2 ^ 25" using Cons.prems(3) by linarith
  have y25t: "take_bit 25 y = y" using Cons.prems(2) y25 by (rule take_bit_int_eq_self)
  have y30: "take_bit 30 y = y" using Cons.prems(2) y25 by (intro take_bit_int_eq_self) simp_all
  have sy: "take_bit 30 (s XOR y) = s XOR y" using Cons.prems(1) y30 by (rule tb30_xor)
  define s' where "s' = polyModStep s 0"
  define y' where "y' = y * 32 + c"
  have z: "take_bit 30 (0::int) = 0" by simp
  have s': "take_bit 30 s' = s'" unfolding s'_def using Cons.prems(1) z by (rule polyModStep_eq(2))
  have "push_bit 5 y XOR c = push_bit 5 y + c"
    using c by (intro push_bit_disjoint_xor) simp_all
  then have p: "push_bit 5 y XOR c = y'" by (simp add: y'_def push_bit_eq_mult)
  have st: "polyModStep (s XOR y) c = s' XOR y'"
    unfolding polyModStep_value [OF sy small_tb30 [OF c]] polyModStep_low [OF Cons.prems(1) y25t]
    by (simp add: s'_def p xor.assoc)
  have y0: "0 \<le> y'" unfolding y'_def using Cons.prems(2) c by simp
  have "y + 1 \<le> 2 ^ (5 * k)" using Cons.prems(3) by simp
  then have "(y + 1) * 32 \<le> 2 ^ (5 * k) * 32" by (simp add: mult_right_mono)
  moreover have "y * 32 + c < (y + 1) * 32" using c by simp
  moreover have "(2::int) ^ (5 * Suc k) = 2 ^ (5 * k) * 32" by (simp add: power_add)
  ultimately have y1: "y' < 2 ^ (5 * Suc k)" unfolding y'_def by (simp only: less_le_trans)
  have "foldl polyModStep (s' XOR y') cs =
      foldl polyModStep s' (replicate (length cs) 0) XOR foldl (\<lambda>a c. a * 32 + c) y' cs"
  proof (rule Cons.IH [where k = "Suc k"])
    show "take_bit 30 s' = s'" by (rule s')
    show "0 \<le> y'" by (rule y0)
    show "y' < 2 ^ (5 * Suc k)" by (rule y1)
    show "Suc k + length cs \<le> 6" using Cons.prems(4) by simp
    show "list_all (\<lambda>c. 0 \<le> c \<and> c < 32) cs" using Cons.prems(5) by simp
  qed
  then show ?case by (simp add: st s'_def y'_def)
qed

lemma be_digits_32_6:
  "be_digits 32 6 x =
     [x div 2 ^ 25 mod 32, x div 2 ^ 20 mod 32, x div 2 ^ 15 mod 32, x div 2 ^ 10 mod 32,
      x div 2 ^ 5 mod 32, x mod 32]"
proof -
  have d: "\<And>a b c :: int. 0 \<le> c \<Longrightarrow> a div b div c = a div (b * c)"
    by (simp add: zdiv_zmult2_eq)
  show ?thesis by (simp add: eval_nat_numeral d)
qed

lemma checksumChars_digits:
  assumes "take_bit 30 poly = poly"
  shows "checksumChars poly = map bech32Char (be_digits 32 6 poly)"
proof -
  have p: "toInt32 poly = poly" using assms by (rule tb30_toInt32)
  have e: "\<And>b. b + 5 \<le> 32 \<Longrightarrow> js_and (js_sar poly b) 31 = (poly div 2 ^ b) mod 32"
    using ext5 [of _ poly] by (simp add: p)
  have c: "\<And>b. charAt bech32Alphabet (nat ((poly div 2 ^ b) mod 32)) =
      [bech32Char ((poly div 2 ^ b) mod 32)]"
    by (rule charAt_bech32) simp_all
  show ?thesis
    unfolding checksumChars_def be_digits_32_6
    by (simp add: e c)
qed

subsection \<open>Copying into an array\<close>

lemma arraySetLoop_fits:
  "off + i + n \<le> length a \<Longrightarrow> i + n \<le> length b \<Longrightarrow>
   arraySetLoop a b off i n = take (off + i) a @ take n (drop i b) @ drop (off + i + n) a"
proof (induction n arbitrary: a i)
  case 0
  then show ?case by simp
next
  case (Suc n)
  define a' where "a' = a[off + i := b ! i]"
  have i: "i < length b" "off + i < length a" using Suc.prems by simp_all
  have s: "store a (off + i) (at b i) = a'" using i by (simp add: store_def at_def a'_def)
  have l: "length a' = length a" by (simp add: a'_def)
  have "arraySetLoop a' b off (Suc i) n =
      take (off + Suc i) a' @ take n (drop (Suc i) b) @ drop (off + Suc i + n) a'"
    using Suc.prems by (intro Suc.IH) (simp_all add: l)
  moreover have "take (off + Suc i) a' = take (off + i) a @ [b ! i]"
    using i by (simp add: a'_def take_Suc_conv_app_nth)
  moreover have "drop (off + Suc i + n) a' = drop (off + i + Suc n) a"
    by (simp add: a'_def)
  moreover have "take (Suc n) (drop i b) = b ! i # take n (drop (Suc i) b)"
    using i by (simp add: Cons_nth_drop_Suc [symmetric])
  ultimately show ?case by (simp add: s)
qed

lemma arraySet_fits:
  assumes "off + length b \<le> length a"
  shows "arraySet a b (Some off) None = take off a @ b @ drop (off + length b) a"
  using arraySetLoop_fits [of off 0 "length b" a b] assms by (simp add: arraySet_def)

lemma arraySet_fits0:
  assumes "length b \<le> length a"
  shows "arraySet a b None None = b @ drop (length b) a"
  using arraySetLoop_fits [of 0 0 "length b" a b] assms by (simp add: arraySet_def)

lemma arraySet_fits_len:
  assumes "off + n \<le> length a" "n \<le> length b" "0 < n"
  shows "arraySet a b (Some off) (Some n) = take off a @ take n b @ drop (off + n) a"
  using arraySetLoop_fits [of off 0 n a b] assms by (simp add: arraySet_def)

lemma checksum_values:
  "arraySet (arraySet (arrayNew (length pfx + length bytes + n)) pfx None None) bytes
     (Some (length pfx)) None = pfx @ bytes @ replicate n 0"
  by (simp add: arraySet_fits0 arraySet_fits arrayNew_def)

subsection \<open>The checksum of an encoded address verifies\<close>

lemma prefixExpand_tb30: "list_all (\<lambda>v. take_bit 30 v = v) (prefixExpand prefix)"
proof -
  have a: "take_bit 30 (js_sar (of_char c) 5) = js_sar (of_char c) 5" for c
  proof -
    have b: "0 \<le> (of_char c :: int)" "(of_char c :: int) < 256"
      using of_char_bounds [of c] by simp_all
    then have "js_sar (of_char c) 5 = of_char c div 2 ^ 5"
      by (intro js_sar_nonneg) simp_all
    moreover have "(of_char c :: int) div 2 ^ 5 < 2 ^ 30" using b by simp
    moreover have "0 \<le> (of_char c :: int) div 2 ^ 5" using b by simp
    ultimately show ?thesis by (simp add: take_bit_int_eq_self)
  qed
  have c: "take_bit 30 (js_and (of_char c) 31) = js_and (of_char c) 31" for c
  proof -
    have "js_and (of_char c) 31 = of_char c mod 32" using js_and_31 [of "of_char c"] by simp
    moreover have "0 \<le> (of_char c :: int) mod 32" "(of_char c :: int) mod 32 < 2 ^ 30" by simp_all
    ultimately show ?thesis by (simp add: take_bit_int_eq_self)
  qed
  show ?thesis by (auto simp add: prefixExpand_def list_all_iff a c)
qed

lemma small_list_tb30:
  "list_all (\<lambda>d. 0 \<le> d \<and> d < 32) ds \<Longrightarrow> list_all (\<lambda>v. take_bit 30 v = v) ds"
  for ds :: "int list"
  by (induction ds) (simp_all add: small_tb30)

lemma polyMod_append: "polyMod (xs @ ys) = foldl polyModStep (polyMod xs) ys"
  by (simp add: polyMod_def)

lemma createChecksum_verifies:
  assumes "list_all (\<lambda>d. 0 \<le> d \<and> d < 32) ds"
  shows "\<exists>cs. createChecksum prefix (map bech32Char ds) = map bech32Char cs
      \<and> length cs = 6 \<and> list_all (\<lambda>d. 0 \<le> d \<and> d < 32) cs
      \<and> verifyChecksum prefix (map bech32Char (ds @ cs)) = Inr ()"
proof -
  define pfx where "pfx = prefixExpand prefix"
  define s where "s = polyMod (pfx @ ds)"
  define Z where "Z = foldl polyModStep s (replicate 6 0)"
  define poly where "poly = js_xor Z 1"
  define cs where "cs = be_digits 32 6 poly"
  have one: "take_bit 30 (1::int) = 1" by (simp add: take_bit_eq_mod)
  have vs: "list_all (\<lambda>v. take_bit 30 v = v) (pfx @ ds)"
    using prefixExpand_tb30 [of prefix] small_list_tb30 [OF assms] by (simp add: pfx_def)
  have s: "take_bit 30 s = s"
    unfolding s_def polyMod_def using one vs by (rule foldl_polyModStep_tb30)
  have Z: "take_bit 30 Z = Z"
    unfolding Z_def using s by (intro foldl_polyModStep_tb30) (simp_all add: list_all_iff)
  have px: "poly = Z XOR 1" unfolding poly_def using Z one by (rule js_xor_tb30)
  have p: "take_bit 30 poly = poly" unfolding px using Z one by (rule tb30_xor)
  have pr: "0 \<le> poly" "poly < 32 ^ 6" using tb30_range [OF p] by simp_all
  have r: "list_all (\<lambda>d. 0 \<le> d \<and> d < 32) cs"
    unfolding cs_def by (rule be_digits_range) simp
  have len: "length cs = 6" by (simp add: cs_def)
  have sb: "strToBytes (map bech32Char ds) = ds" using assms by (rule strToBytes_chars)
  have pz: "polyMod (pfx @ ds @ replicate 6 0) = Z"
    by (simp add: Z_def s_def polyMod_def)
  have c1: "createChecksum prefix (map bech32Char ds) = map bech32Char cs"
    unfolding createChecksum_def Let_def sb pfx_def [symmetric] checksum_values pz
      poly_def [symmetric] cs_def
    by (rule checksumChars_digits [OF p])
  have v: "be_val 32 cs = poly"
    unfolding cs_def using pr by (intro be_val_be_digits) simp_all
  have "foldl polyModStep (s XOR 0) cs =
      foldl polyModStep s (replicate (length cs) 0) XOR foldl (\<lambda>a c. a * 32 + c) 0 cs"
    using s r by (intro polyMod_tail [where k = 0]) (simp_all add: len)
  then have "foldl polyModStep s cs = Z XOR poly"
    using v by (simp add: len Z_def be_val_def)
  then have f: "foldl polyModStep s cs = 1" by (simp add: px flip: xor.assoc)
  have "strToBytes (map bech32Char (ds @ cs)) = ds @ cs"
    using assms r by (intro strToBytes_chars) simp
  moreover have "polyMod (pfx @ ds @ cs) = 1"
    using f by (simp add: s_def polyMod_def)
  ultimately have c2: "verifyChecksum prefix (map bech32Char (ds @ cs)) = Inr ()"
    unfolding verifyChecksum_def Let_def pfx_def [symmetric]
    using checksum_values [of pfx "ds @ cs" 0]
    by simp
  show ?thesis using c1 len r c2 by blast
qed

subsection \<open>The string of an encoded address\<close>

lemma bech32Char_plain_all:
  "list_all (\<lambda>k. bech32Char k \<noteq> CHR ''1'' \<and> toLowerChar (bech32Char k) = bech32Char k)
     (map int [0..<32])"
  by code_simp

lemma bech32Char_plain:
  assumes "0 \<le> k" "k < 32"
  shows "bech32Char k \<noteq> CHR ''1''" "toLowerChar (bech32Char k) = bech32Char k"
proof -
  have "k \<in> set (map int [0..<32])"
    using assms by (auto simp add: image_iff intro!: bexI [where x = "nat k"])
  then have "bech32Char k \<noteq> CHR ''1'' \<and> toLowerChar (bech32Char k) = bech32Char k"
    using bech32Char_plain_all unfolding list_all_iff by blast
  then show "bech32Char k \<noteq> CHR ''1''" "toLowerChar (bech32Char k) = bech32Char k"
    by simp_all
qed

lemma data_plain:
  assumes "list_all (\<lambda>d. 0 \<le> d \<and> d < 32) ds"
  shows "CHR ''1'' \<notin> set (map bech32Char ds)" "toLowerCase (map bech32Char ds) = map bech32Char ds"
proof -
  have r: "\<And>d. d \<in> set ds \<Longrightarrow> 0 \<le> d \<and> d < 32" using assms by (simp add: list_all_iff)
  show "CHR ''1'' \<notin> set (map bech32Char ds)"
  proof
    assume "CHR ''1'' \<in> set (map bech32Char ds)"
    then obtain d where d: "d \<in> set ds" "bech32Char d = CHR ''1''" by auto
    then show False using r [OF d(1)] bech32Char_plain(1) [of d] by simp
  qed
  have "map toLowerChar (map bech32Char ds) = map bech32Char ds"
    unfolding map_map by (rule map_cong) (simp_all add: r bech32Char_plain(2))
  then show "toLowerCase (map bech32Char ds) = map bech32Char ds" by (simp add: toLowerCase_def)
qed

lemma lower_plain:
  assumes "lower c"
  shows "c \<noteq> CHR ''1''" "toLowerChar c = c"
proof -
  have n: "97 \<le> (of_char c :: nat)" "(of_char c :: nat) \<le> 122"
    using assms of_nat_of_char [of c, where ?'a = int] unfolding lower_def by linarith+
  show "c \<noteq> CHR ''1''" using n by auto
  show "toLowerChar c = c" using n by (simp add: toLowerChar_def)
qed

lemma prefix_plain:
  assumes "list_all lower p"
  shows "CHR ''1'' \<notin> set p" "toLowerCase p = p"
  using assms lower_plain(1)
  by (induction p) (auto simp add: lower_plain(2) toLowerCase_def)

lemma lastIndexOfLoop_absent:
  "c \<notin> set xs \<Longrightarrow> lastIndexOfLoop xs c i found = found"
  by (induction xs arbitrary: i found) auto

lemma lastIndexOfLoop_last:
  "c \<notin> set ys \<Longrightarrow> lastIndexOfLoop (xs @ c # ys) c i found = i + int (length xs)"
  by (induction xs arbitrary: i found) (simp_all add: lastIndexOfLoop_absent)

lemma lastIndexOf_separator:
  "c \<notin> set ys \<Longrightarrow> lastIndexOf (xs @ c # ys) c = int (length xs)"
  by (simp add: lastIndexOf_def lastIndexOfLoop_last)

lemma slice_prefix: "slice (xs @ ys) 0 (int (length xs)) = xs"
  by (simp add: slice_def sliceIndex_def)

lemma slice_suffix:
  "slice (xs @ c # ys) (int (length xs) + 1) (int (length (xs @ c # ys))) = ys"
  by (simp add: slice_def sliceIndex_def nat_add_distrib)

lemma slice_drop_checksum: "length cs = 6 \<Longrightarrow> slice (xs @ cs) 0 (- 6) = xs"
  by (simp add: slice_def sliceIndex_def)

subsection \<open>Encoding an address and decoding it again\<close>

lemma toLowerChar_separator: "toLowerChar CHR ''1'' = CHR ''1''"
  by (simp add: toLowerChar_def)

lemma toLowerCase_append: "toLowerCase (xs @ ys) = toLowerCase xs @ toLowerCase ys"
  by (simp add: toLowerCase_def)

lemma newAddress_bytes: "adr_bytes newAddress = [85, 169] @ replicate 32 0"
  by code_simp

lemma uint16ToBytes_bytes:
  assumes "byte b0" "byte b1"
  shows "uint16ToBytes (b0 * 256 + b1) = [b0, b1]"
proof -
  define v where "v = b0 * 256 + b1"
  have b: "0 \<le> b0" "b0 < 256" "0 \<le> b1" "b1 < 256" using assms by (simp_all add: byte_def)
  have v: "0 \<le> v" "v < 2 ^ 31" using b by (simp_all add: v_def)
  have t: "toInt32 v = v" using v by (rule toInt32_nonneg)
  have "js_and (js_sar (toInt32 v) 8) 0xff = (v div 2 ^ 8) mod 256" by (rule ext8) simp
  moreover have "v div 2 ^ 8 = b0" unfolding v_def using b by simp
  moreover have "js_and v 0xff = v mod 256" by (rule js_and_255)
  moreover have "v mod 256 = b1" unfolding v_def using b by simp
  ultimately show ?thesis using b by (simp add: uint16ToBytes_def t v_def [symmetric])
qed

lemma version_of_bytes:
  assumes "byte b0" "byte b1"
  shows "js_add (js_shl b0 8) b1 = b0 * 256 + b1"
proof -
  have b: "0 \<le> b0" "b0 < 256" "0 \<le> b1" "b1 < 256" using assms by (simp_all add: byte_def)
  have "js_shl b0 8 = b0 * 2 ^ 8" using b by (intro js_shl_small) simp_all
  then show ?thesis using b by (simp add: js_add_def fl_id)
qed

lemma prefix_of_version:
  assumes "v = 0 \<or> valid_version v"
  shows "\<exists>p. versionToPrefix v = Inr p \<and> prefixToVersion p = Inr v \<and> list_all lower p
     \<and> (length p = 3 \<or> length p = 7)"
proof (cases "v = 0")
  case True
  have "list_all lower ''genesis''" by (simp add: lower_def)
  then show ?thesis using True genesis_version by auto
next
  case False
  then have "valid_version v" using assms by simp
  then show ?thesis using versionToPrefix_valid [of v] by auto
qed

lemma bech32Decode_bech32Encode:
  assumes "length bytes = 34" "list_all byte bytes"
    and "at bytes 0 * 256 + at bytes 1 = 0 \<or> valid_version (at bytes 0 * 256 + at bytes 1)"
  shows "\<exists>s. bech32Encode bytes = Inr s \<and> bech32Decode s = Inr bytes"
proof -
  obtain b0 b1 pk where bytes: "bytes = b0 # b1 # pk"
    using assms(1) by (cases bytes; cases "tl bytes") auto
  have pk: "length pk = 32" "list_all byte pk" "byte b0" "byte b1"
    using assms(1,2) by (simp_all add: bytes)
  define v where "v = b0 * 256 + b1"
  have at: "at bytes 0 = b0" "at bytes 1 = b1" by (simp_all add: bytes at_def)
  have vv: "v = 0 \<or> valid_version v" using assms(3) [unfolded at] by (simp add: v_def)
  obtain p where p: "versionToPrefix v = Inr p" "prefixToVersion p = Inr v" "list_all lower p"
    "length p = 3 \<or> length p = 7"
    using prefix_of_version [OF vv] by blast
  define ds where "ds = be_digits 32 52 (be_val 256 pk * 16)"
  have ds: "list_all (\<lambda>d. 0 \<le> d \<and> d < 32) ds" "length ds = 52"
    unfolding ds_def by (simp_all add: be_digits_range)
  have data: "convert8to5 pk = map bech32Char ds"
    unfolding ds_def using pk(2) pk(1) by (rule convert8to5_32)
  obtain cs where cs: "createChecksum p (map bech32Char ds) = map bech32Char cs" "length cs = 6"
    "list_all (\<lambda>d. 0 \<le> d \<and> d < 32) cs"
    "verifyChecksum p (map bech32Char (ds @ cs)) = Inr ()"
    using createChecksum_verifies [OF ds(1), of p] by blast
  define rest where "rest = map bech32Char (ds @ cs)"
  define s where "s = p @ CHR ''1'' # rest"
  have dcs: "list_all (\<lambda>d. 0 \<le> d \<and> d < 32) (ds @ cs)" using ds(1) cs(3) by simp
  have d2: "drop 2 bytes = pk" by (simp add: bytes)
  have enc: "bech32Encode bytes = Inr s"
    unfolding bech32Encode_def at version_of_bytes [OF pk(3,4)] v_def [symmetric] p(1) d2
    by (simp add: data cs(1) s_def rest_def)
  have len: "length s = 62 \<or> length s = 66"
    using p(4) by (auto simp add: s_def rest_def ds(2) cs(2))
  have lr: "toLowerCase rest = rest" unfolding rest_def using dcs by (rule data_plain(2))
  have "toLowerCase (CHR ''1'' # rest) = CHR ''1'' # rest"
    using lr by (simp add: toLowerCase_def toLowerChar_separator)
  then have low: "toLowerCase s = s"
    unfolding s_def toLowerCase_append by (simp add: prefix_plain(2) [OF p(3)])
  have nosep: "CHR ''1'' \<notin> set rest" unfolding rest_def using dcs by (rule data_plain(1))
  have sep: "lastIndexOf s CHR ''1'' = int (length p)"
    unfolding s_def using nosep by (rule lastIndexOf_separator)
  have pfx: "slice s 0 (int (length p)) = p" unfolding s_def by (rule slice_prefix)
  have dat: "slice s (int (length p) + 1) (int (length s)) = rest"
    unfolding s_def by (rule slice_suffix)
  have chk: "checkAlphabet rest = Inr ()" unfolding rest_def using dcs by (rule checkAlphabet_chars)
  have ver: "verifyChecksum p rest = Inr ()" unfolding rest_def by (rule cs(4))
  have pay: "slice rest 0 (- 6) = convert8to5 pk"
    unfolding rest_def data using slice_drop_checksum [of "map bech32Char cs" "map bech32Char ds"]
    by (simp add: cs(2))
  have conv: "convert5to8 (convert8to5 pk) = Inr pk"
    using pk(2) pk(1) by (rule convert5to8_convert8to5)
  have u: "uint16ToBytes v = [b0, b1]" unfolding v_def using pk(3,4) by (rule uint16ToBytes_bytes)
  have l2: "length s \<noteq> 62 \<and> length s \<noteq> 66 \<longleftrightarrow> False" using len by auto
  have dec: "bech32Decode s = Inr bytes"
    unfolding bech32Decode_def Let_def low sep pfx dat
    by (simp add: l2 p(2) chk ver pay conv u arrayConcat_def bytes)
  show ?thesis using enc dec by blast
qed

lemma arraySetLoop_extends:
  "off + i = length a \<Longrightarrow> i + n \<le> length b \<Longrightarrow>
   arraySetLoop a b off i n = a @ take n (drop i b)"
proof (induction n arbitrary: a i)
  case 0
  then show ?case by simp
next
  case (Suc n)
  have i: "i < length b" using Suc.prems by simp
  have s: "store a (off + i) (at b i) = a @ [b ! i]"
    using Suc.prems(1) i by (simp add: store_def at_def)
  have "arraySetLoop (a @ [b ! i]) b off (Suc i) n = (a @ [b ! i]) @ take n (drop (Suc i) b)"
    using Suc.prems by (intro Suc.IH) simp_all
  moreover have "take (Suc n) (drop i b) = b ! i # take n (drop (Suc i) b)"
    using i by (simp add: Cons_nth_drop_Suc [symmetric])
  ultimately show ?case by (simp add: s)
qed

lemma arraySet_empty: "arraySet [] b None None = b"
  using arraySetLoop_extends [of 0 0 "[]" "length b" b] by (simp add: arraySet_def)

lemma int_div_bound:
  fixes x b n :: int
  assumes "0 < b" "x < b * n"
  shows "x div b < n"
proof (rule ccontr)
  assume "\<not> x div b < n"
  then have "b * n \<le> b * (x div b)" using assms(1) by simp
  moreover have "b * (x div b) \<le> x"
    using assms(1) mult_div_mod_eq [of b x] pos_mod_sign [of b x] by linarith
  ultimately show False using assms(2) by simp
qed

lemma address_update: "r\<lparr>adr_bytes := x\<rparr> = \<lparr>adr_bytes = x\<rparr>" for r :: Address
  by (cases r) simp

lemma version_bytes:
  assumes "0 \<le> v" "v < 65536"
  shows "uint16ToBytes v = [v div 256, v mod 256]" "byte (v div 256)" "byte (v mod 256)"
    "(v div 256) * 256 + v mod 256 = v"
proof -
  have "v div 256 < 256" using assms by (intro int_div_bound) simp_all
  then show b: "byte (v div 256)" "byte (v mod 256)" using assms by (simp_all add: byte_def)
  show e: "(v div 256) * 256 + v mod 256 = v" by simp
  show "uint16ToBytes v = [v div 256, v mod 256]"
    using uint16ToBytes_bytes [OF b] by (simp only: e)
qed

lemma constructAddress_bytes:
  assumes "p = ''genesis'' \<or> (length p = 3 \<and> list_all lower p)" "length key = 32"
  shows "\<exists>v. prefixToVersion p = Inr v \<and> (v = 0 \<or> valid_version v)
     \<and> constructAddress p key = Inr \<lparr>adr_bytes = [v div 256, v mod 256] @ key\<rparr>"
proof -
  obtain v where v: "prefixToVersion p = Inr v" "v = 0 \<or> valid_version v"
    using assms(1) prefixToVersion_valid [of p] genesis_version(1) by auto
  have r: "0 \<le> v" "v < 65536" using v(2) by (auto simp add: valid_version_def)
  have k: "newPublicKey key = Inr \<lparr>pk_bytes = key\<rparr>"
    using assms(2) by (simp add: newPublicKey_def arraySet_empty)
  have a1: "arraySet (adr_bytes newAddress) key (Some 2) None = 85 # 169 # key"
    using assms(2) by (subst arraySet_fits) (simp_all add: newAddress_bytes)
  have a2: "arraySet (85 # 169 # key) [v div 256, v mod 256] None None = v div 256 # v mod 256 # key"
    by (subst arraySet_fits0) simp_all
  have "constructAddress p key = Inr \<lparr>adr_bytes = [v div 256, v mod 256] @ key\<rparr>"
    by (simp add: constructAddress_def k adr_setPublicKey_unfold pk_getBytes_def a1
        adr_setPrefix_unfold v(1) version_bytes(1) [OF r] a2 address_update)
  then show ?thesis using v by blast
qed

text \<open>
  C2: an address of 34 bytes whose version is 0 (\<open>genesis\<close>) or valid is encoded
  by \<open>getBech32\<close> to a string that \<open>fromBech32\<close> decodes to the same address,
  byte for byte; and the address constructed from a valid prefix (or \<open>genesis\<close>) and
  a public key of 32 bytes is such an address.
\<close>

theorem address_bech32_roundtrip:
  "(length (adr_bytes a) = 34 \<and> list_all byte (adr_bytes a)
      \<and> (addressVersion a = 0 \<or> valid_version (addressVersion a)) \<longrightarrow>
      (\<exists>s. adr_getBech32 a = Inr s \<and> adr_fromBech32 s = Inr a))
   \<and> ((p = ''genesis'' \<or> (length p = 3 \<and> list_all lower p)) \<and> length key = 32
        \<and> list_all byte key \<longrightarrow>
      (\<exists>c s. constructAddress p key = Inr c \<and> length (adr_getBytes c) = 34
         \<and> adr_getBech32 c = Inr s \<and> adr_fromBech32 s = Inr c))"
proof -
  have main: "\<exists>s. adr_getBech32 a = Inr s \<and> adr_fromBech32 s = Inr a"
    if a: "length (adr_bytes a) = 34" "list_all byte (adr_bytes a)"
      "addressVersion a = 0 \<or> valid_version (addressVersion a)" for a :: Address
  proof -
    obtain s where s: "bech32Encode (adr_bytes a) = Inr s" "bech32Decode s = Inr (adr_bytes a)"
      using bech32Decode_bech32Encode [OF a(1) a(2)] a(3) by (auto simp add: addressVersion_def)
    have "arraySet (adr_bytes newAddress) (adr_bytes a) None None = adr_bytes a"
      using a(1) by (subst arraySet_fits0) (simp_all add: newAddress_bytes)
    then have "adr_fromBech32 s = Inr a"
      by (simp add: adr_fromBech32_def s(2) address_update)
    then show ?thesis using s(1) by (simp add: adr_getBech32_def)
  qed
  have con: "\<exists>c s. constructAddress p key = Inr c \<and> length (adr_getBytes c) = 34
         \<and> adr_getBech32 c = Inr s \<and> adr_fromBech32 s = Inr c"
    if k: "p = ''genesis'' \<or> (length p = 3 \<and> list_all lower p)" "length key = 32"
      "list_all byte key"
  proof -
    obtain v where v: "prefixToVersion p = Inr v" "v = 0 \<or> valid_version v"
      "constructAddress p key = Inr \<lparr>adr_bytes = [v div 256, v mod 256] @ key\<rparr>"
      using constructAddress_bytes [OF k(1) k(2)] by blast
    define c where "c = \<lparr>adr_bytes = [v div 256, v mod 256] @ key\<rparr>"
    have r: "0 \<le> v" "v < 65536" using v(2) by (auto simp add: valid_version_def)
    have 1: "length (adr_bytes c) = 34" by (simp add: c_def k(2))
    have 2: "list_all byte (adr_bytes c)"
      using version_bytes(2,3) [OF r] k(3) by (simp add: c_def)
    have "addressVersion c = v" by (simp add: addressVersion_def c_def at_def)
    then have 3: "addressVersion c = 0 \<or> valid_version (addressVersion c)" using v(2) by simp
    show ?thesis
      using main [OF 1 2 3] v(3) 1 by (auto simp add: c_def adr_getBytes_def)
  qed
  show ?thesis using main con by blast
qed

theorem address_bech32_roundtrip_witness:
  "length (adr_bytes newAddress) = 34 \<and> list_all byte (adr_bytes newAddress)
   \<and> valid_version (addressVersion newAddress)
   \<and> (\<exists>s. adr_getBech32 newAddress = Inr s \<and> adr_fromBech32 s = Inr newAddress)
   \<and> length ''abc'' = 3 \<and> list_all lower ''abc''
   \<and> length (replicate 32 (7::int)) = 32 \<and> list_all byte (replicate 32 7)
   \<and> (\<exists>c s. constructAddress ''abc'' (replicate 32 7) = Inr c \<and> length (adr_getBytes c) = 34
         \<and> adr_getBech32 c = Inr s \<and> adr_fromBech32 s = Inr c)"
proof -
  have h: "length (adr_bytes newAddress) = 34" "list_all byte (adr_bytes newAddress)"
    "valid_version (addressVersion newAddress)"
    by code_simp+
  have k: "length ''abc'' = 3 \<and> list_all lower ''abc''"
    "length (replicate 32 (7::int)) = 32" "list_all byte (replicate 32 7)"
    by code_simp+
  show ?thesis
    using address_bech32_roundtrip [of newAddress "''abc''" "replicate 32 7"] h k
    by simp
qed

lemma newAddress_bech32:
  "adr_getBech32 newAddress = Inr ''umi1qqqqqqqqqqqqqqqqqqqqqqqqqqqqqqqqqqqqqqqqqqqqqqqqqqqqr5zcpj''"
  by code_simp

section \<open>Transactions: the bytes that a call writes\<close>

lemma tx_sign_unfold [code]:
  "tx_sign now signer t =
     (case setNonce now t of
        (Inl e, t') \<Rightarrow> (Inl e, t')
      | (Inr _, t') \<Rightarrow> setSignature (signer (slice (tx_bytes t') 0 85)) t')"
  by (simp add: tx_sign_def andThen_def split: prod.splits sum.splits)

subsection \<open>Writes into an array\<close>

lemma length_store: "length (store a k v) = max (length a) (Suc k)"
  by (simp add: store_def)

lemma store_frame:
  "k < m \<Longrightarrow> m \<le> length a \<Longrightarrow>
   length (store a k v) = length a \<and> drop m (store a k v) = drop m a"
  by (simp add: store_def)

lemma arraySetLoop_frame:
  "off + i + n \<le> m \<Longrightarrow> m \<le> length a \<Longrightarrow>
   length (arraySetLoop a b off i n) = length a
   \<and> drop m (arraySetLoop a b off i n) = drop m a"
proof (induction n arbitrary: a i)
  case 0
  then show ?case by simp
next
  case (Suc n)
  define a' where "a' = store a (off + i) (at b i)"
  have s: "length a' = length a \<and> drop m a' = drop m a"
    unfolding a'_def using Suc.prems by (intro store_frame) simp_all
  have "length (arraySetLoop a' b off (Suc i) n) = length a'
      \<and> drop m (arraySetLoop a' b off (Suc i) n) = drop m a'"
    using Suc.prems s by (intro Suc.IH) simp_all
  then show ?case using s by (simp add: a'_def)
qed

lemma arraySet_frame:
  assumes "off + length b \<le> m" "m \<le> length a"
  shows "length (arraySet a b (Some off) None) = length a"
    "drop m (arraySet a b (Some off) None) = drop m a"
  using arraySetLoop_frame [of off 0 "length b" m a b] assms by (simp_all add: arraySet_def)

lemma arraySet_frame_len:
  assumes "off + n \<le> m" "m \<le> length a" "0 < n"
  shows "length (arraySet a b (Some off) (Some n)) = length a"
    "drop m (arraySet a b (Some off) (Some n)) = drop m a"
  using arraySetLoop_frame [of off 0 n m a b] assms by (simp_all add: arraySet_def)

lemma length_arraySetLoop_le:
  "length (arraySetLoop a b off i n) \<le> max (length a) (off + i + n)"
proof (induction n arbitrary: a i)
  case 0
  then show ?case by simp
next
  case (Suc n)
  have "length (arraySetLoop (store a (off + i) (at b i)) b off (Suc i) n)
      \<le> max (length (store a (off + i) (at b i))) (off + Suc i + n)"
    by (rule Suc.IH)
  then show ?case by (simp add: length_store)
qed

lemma length_arraySet_le:
  "length (arraySet a b None None) \<le> max (length a) (length b)"
  "length (arraySet a b (Some off) None) \<le> max (length a) (off + length b)"
  using length_arraySetLoop_le [of a b 0 0 "length b"]
    length_arraySetLoop_le [of a b off 0 "length b"]
  by (simp_all add: arraySet_def)

lemma length_uint64ToBytes: "length (uint64ToBytes v) = 8"
  by (simp add: uint64ToBytes_def Let_def)

lemma length_uint16ToBytes: "length (uint16ToBytes v) = 2"
  by (simp add: uint16ToBytes_def)

subsection \<open>The size of an address\<close>

lemma emit8_count:
  "emit8 val bits result = (bits', result') \<Longrightarrow>
   8 * length result' + bits' = 8 * length result + bits"
proof (induction val bits result rule: emit8.induct)
  case (1 val bits result)
  show ?case
  proof (cases "bits \<ge> 8")
    case True
    then have "emit8 val (bits - 8) (result @ [js_and (js_sar val (bits - 8)) 0xff])
        = (bits', result')"
      using "1.prems" by (subst (asm) emit8.simps) simp
    then have "8 * length result' + bits' =
        8 * length (result @ [js_and (js_sar val (bits - 8)) 0xff]) + (bits - 8)"
      using True by (intro "1.IH")
    then show ?thesis using True by simp
  next
    case False
    then show ?thesis using "1.prems" by (subst (asm) emit8.simps) simp
  qed
qed

lemma convert5to8Loop_count:
  "convert5to8Loop bytes val bits result = (v', b', r') \<Longrightarrow>
   8 * length r' + b' = 8 * length result + bits + 5 * length bytes"
proof (induction bytes arbitrary: val bits result)
  case Nil
  then show ?case by simp
next
  case (Cons b bytes)
  obtain bits1 result1 where e: "emit8 (js_or (js_shl val 5) b) (bits + 5) result = (bits1, result1)"
    by (cases "emit8 (js_or (js_shl val 5) b) (bits + 5) result")
  have "convert5to8Loop bytes (js_or (js_shl val 5) b) bits1 result1 = (v', b', r')"
    using Cons.prems e by (simp add: Let_def)
  then have "8 * length r' + b' = 8 * length result1 + bits1 + 5 * length bytes"
    by (rule Cons.IH)
  then show ?case using emit8_count [OF e] by simp
qed

lemma length_strToBytes: "length (strToBytes s) = length s"
  by (induction s) simp_all

lemma length_toLowerCase: "length (toLowerCase s) = length s"
  by (simp add: toLowerCase_def)

lemma length_slice_le: "length (slice xs b e) \<le> length xs"
  by (simp add: slice_def Let_def)

lemma convert5to8_length:
  assumes "convert5to8 data = Inr r"
  shows "8 * length r \<le> 5 * length data"
proof -
  obtain v b r' where c: "convert5to8Loop (strToBytes data) 0 0 [] = (v, b, r')"
    by (cases "convert5to8Loop (strToBytes data) 0 0 []")
  have "r = r'" using assms c by (simp add: convert5to8_def split: if_splits)
  then show ?thesis using convert5to8Loop_count [OF c] by (simp add: length_strToBytes)
qed

lemma bech32Decode_length:
  assumes "bech32Decode s = Inr bytes"
  shows "length bytes \<le> 43"
proof -
  have l: "length s \<le> 66"
    using assms by (auto simp add: bech32Decode_def split: if_splits)
  define str where "str = toLowerCase s"
  define data where "data = slice str (lastIndexOf str CHR ''1'' + 1) (int (length str))"
  obtain ver payload where p: "convert5to8 (slice data 0 (- 6)) = Inr payload"
    and b: "bytes = arrayConcat (uint16ToBytes ver) payload"
    using assms unfolding bech32Decode_def Let_def str_def [symmetric] data_def [symmetric]
    by (auto split: if_splits sum.splits)
  have "length (slice data 0 (- 6)) \<le> length data" by (rule length_slice_le)
  also have "\<dots> \<le> length str" unfolding data_def by (rule length_slice_le)
  also have "\<dots> \<le> 66" using l by (simp add: str_def length_toLowerCase)
  finally have "8 * length payload \<le> 330" using convert5to8_length [OF p] by simp
  then show ?thesis by (simp add: b arrayConcat_def length_uint16ToBytes)
qed

lemma length_newAddress: "length (adr_bytes newAddress) = 34"
  by (simp add: newAddress_bytes)

lemma addressFits_built:
  "addressFits newAddress"
  "adr_fromBytes bytes = Inr a \<Longrightarrow> addressFits a"
  "adr_fromBech32 s = Inr a \<Longrightarrow> addressFits a"
  "addressFits adr \<Longrightarrow> addressFits (snd (adr_setPrefix p adr))"
  "addressFits adr \<Longrightarrow> length (pk_bytes k) = 32 \<Longrightarrow> addressFits (snd (adr_setPublicKey k adr))"
proof -
  show "addressFits newAddress" by (simp add: addressFits_def length_newAddress)
  show "addressFits a" if "adr_fromBytes bytes = Inr a"
    using that length_arraySet_le(1) [of "adr_bytes newAddress" bytes]
    by (auto simp add: adr_fromBytes_def addressFits_def length_newAddress split: if_splits)
  show "addressFits a" if "adr_fromBech32 s = Inr a"
  proof -
    have "bech32Decode s \<noteq> Inl e" for e
      using that by (auto simp add: adr_fromBech32_def)
    then obtain bytes where d: "bech32Decode s = Inr bytes"
      by (cases "bech32Decode s") auto
    have a: "a = newAddress\<lparr>adr_bytes := arraySet (adr_bytes newAddress) bytes None None\<rparr>"
      using that by (simp add: adr_fromBech32_def d)
    show ?thesis
      using bech32Decode_length [OF d] length_arraySet_le(1) [of "adr_bytes newAddress" bytes]
      by (simp add: a addressFits_def length_newAddress)
  qed
  show "addressFits (snd (adr_setPrefix p adr))" if "addressFits adr"
  proof (cases "prefixToVersion p")
    case (Inl e)
    then show ?thesis using that by (simp add: adr_setPrefix_unfold)
  next
    case (Inr v)
    then show ?thesis
      using that length_arraySet_le(1) [of "adr_bytes adr" "uint16ToBytes v"]
      by (simp add: adr_setPrefix_unfold addressFits_def length_uint16ToBytes)
  qed
  show "addressFits (snd (adr_setPublicKey k adr))"
    if "addressFits adr" "length (pk_bytes k) = 32"
    using that length_arraySet_le(2) [of "adr_bytes adr" "pk_getBytes k" 2]
    by (simp add: adr_setPublicKey_unfold addressFits_def pk_getBytes_def)
qed

subsection \<open>The setters\<close>

lemma setSignature_bytes:
  assumes "length (tx_bytes t) = 150" "length sig = 64"
  shows "tx_bytes (snd (setSignature sig t)) = take 85 (tx_bytes t) @ sig @ drop 149 (tx_bytes t)"
  using assms arraySet_fits [of 85 sig "tx_bytes t"] by (simp add: setSignature_unfold)

lemma setSignature_rejects:
  "length sig \<noteq> 64 \<Longrightarrow> setSignature sig t = (Inl (Error ''invalid length''), t)"
  by (simp add: setSignature_unfold)

lemma getSignature_bytes:
  "length (tx_bytes t) = 150 \<Longrightarrow> getSignature t = take 64 (drop 85 (tx_bytes t))"
  by (simp add: getSignature_def slice_nat)

lemma setVersion_frame:
  assumes "length (tx_bytes t) = 150"
  shows "length (tx_bytes (snd (setVersion val t))) = 150
    \<and> drop 85 (tx_bytes (snd (setVersion val t))) = drop 85 (tx_bytes t)"
  using assms store_frame [of 0 85 "tx_bytes t"]
  by (simp add: setVersion_unfold split: sum.splits)

lemma setSender_frame:
  assumes "length (tx_bytes t) = 150"
  shows "length (tx_bytes (snd (setSender a t))) = 150
    \<and> drop 85 (tx_bytes (snd (setSender a t))) = drop 85 (tx_bytes t)"
  using assms arraySet_frame_len [of 1 34 85 "tx_bytes t" "adr_getBytes a"]
  by (simp add: setSender_unfold)

lemma setRecipient_frame:
  assumes "length (tx_bytes t) = 150" "addressFits a"
  shows "length (tx_bytes (snd (setRecipient a t))) = 150
    \<and> drop 85 (tx_bytes (snd (setRecipient a t))) = drop 85 (tx_bytes t)"
  using assms arraySet_frame [of 35 "adr_getBytes a" 85 "tx_bytes t"]
  by (simp add: setRecipient_unfold addressFits_def adr_getBytes_def split: sum.splits)

lemma setValue_frame:
  assumes "length (tx_bytes t) = 150"
  shows "length (tx_bytes (snd (setValue val t))) = 150
    \<and> drop 85 (tx_bytes (snd (setValue val t))) = drop 85 (tx_bytes t)"
  using assms arraySet_frame [of 69 "uint64ToBytes v" 85 "tx_bytes t" for v]
  by (simp add: setValue_unfold length_uint64ToBytes split: sum.splits)

lemma setNonce_frame:
  assumes "length (tx_bytes t) = 150"
  shows "length (tx_bytes (snd (setNonce val t))) = 150
    \<and> drop 85 (tx_bytes (snd (setNonce val t))) = drop 85 (tx_bytes t)"
  using assms arraySet_frame [of 77 "uint64ToBytes v" 85 "tx_bytes t" for v]
  by (simp add: setNonce_unfold length_uint64ToBytes split: sum.splits)

lemma setPrefix_frame:
  assumes "length (tx_bytes t) = 150"
  shows "length (tx_bytes (snd (setPrefix p t))) = 150
    \<and> drop 85 (tx_bytes (snd (setPrefix p t))) = drop 85 (tx_bytes t)"
  using assms arraySet_frame [of 35 "uint16ToBytes v" 85 "tx_bytes t" for v]
  by (simp add: setPrefix_unfold length_uint16ToBytes split: sum.splits)

lemma setProfitPercent_frame:
  assumes "length (tx_bytes t) = 150"
  shows "length (tx_bytes (snd (setProfitPercent val t))) = 150
    \<and> drop 85 (tx_bytes (snd (setProfitPercent val t))) = drop 85 (tx_bytes t)"
  using assms arraySet_frame [of 37 "uint16ToBytes v" 85 "tx_bytes t" for v]
  by (simp add: setProfitPercent_unfold length_uint16ToBytes split: sum.splits)

lemma setFeePercent_frame:
  assumes "length (tx_bytes t) = 150"
  shows "length (tx_bytes (snd (setFeePercent val t))) = 150
    \<and> drop 85 (tx_bytes (snd (setFeePercent val t))) = drop 85 (tx_bytes t)"
  using assms arraySet_frame [of 39 "uint16ToBytes v" 85 "tx_bytes t" for v]
  by (simp add: setFeePercent_unfold length_uint16ToBytes split: sum.splits)

lemma setName_frame:
  assumes "length (tx_bytes t) = 150"
  shows "length (tx_bytes (snd (setName name t))) = 150
    \<and> drop 85 (tx_bytes (snd (setName name t))) = drop 85 (tx_bytes t)"
proof (cases "isl (checkVersion [2, 3] t) \<or> length (textEncode name) > 35")
  case True
  then show ?thesis using assms by (auto simp add: setName_unfold split: sum.splits)
next
  case False
  define a1 where "a1 = arraySet (tx_bytes t) (arrayNew 36) (Some 41) None"
  define a2 where "a2 = arraySet a1 (textEncode name) (Some 42) None"
  have 1: "length a1 = 150 \<and> drop 85 a1 = drop 85 (tx_bytes t)"
    using assms arraySet_frame [of 41 "arrayNew 36" 85 "tx_bytes t"]
    by (simp add: a1_def arrayNew_def)
  have 2: "length a2 = 150 \<and> drop 85 a2 = drop 85 (tx_bytes t)"
    using 1 False arraySet_frame [of 42 "textEncode name" 85 a1] by (simp add: a2_def)
  have 3: "length (store a2 41 v) = 150 \<and> drop 85 (store a2 41 v) = drop 85 (tx_bytes t)" for v
    using 2 store_frame [of 41 85 a2 v] by simp
  show ?thesis
    using False 3 by (auto simp add: setName_unfold a1_def a2_def split: sum.splits)
qed

lemma drop_149:
  "drop 85 xs = drop 85 ys \<Longrightarrow> drop 149 xs = drop 149 ys"
proof -
  assume "drop 85 xs = drop 85 ys"
  then have "drop 64 (drop 85 xs) = drop 64 (drop 85 ys)" by simp
  then show ?thesis by simp
qed

lemma lower_frame:
  "length xs = 150 \<and> drop 85 xs = drop 85 ys \<Longrightarrow> length xs = 150 \<and> drop 149 xs = drop 149 ys"
  using drop_149 [of xs ys] by blast

lemma setSignature_frame:
  assumes "length (tx_bytes t) = 150"
  shows "length (tx_bytes (snd (setSignature sig t))) = 150
    \<and> drop 149 (tx_bytes (snd (setSignature sig t))) = drop 149 (tx_bytes t)"
proof (cases "length sig = 64")
  case True
  then show ?thesis using assms setSignature_bytes [OF assms True] by simp
next
  case False
  then show ?thesis using assms by (simp add: setSignature_rejects)
qed

lemma tx_sign_frame:
  assumes "length (tx_bytes t) = 150"
  shows "length (tx_bytes (snd (tx_sign now signer t))) = 150
    \<and> drop 149 (tx_bytes (snd (tx_sign now signer t))) = drop 149 (tx_bytes t)"
proof -
  define t' where "t' = snd (setNonce now t)"
  have n: "length (tx_bytes t') = 150" "drop 149 (tx_bytes t') = drop 149 (tx_bytes t)"
    using lower_frame [OF setNonce_frame [OF assms, of now]] by (simp_all add: t'_def)
  show ?thesis
  proof (cases "fst (setNonce now t)")
    case (Inl e)
    then have "tx_sign now signer t = (Inl e, t')"
      by (cases "setNonce now t") (simp add: tx_sign_unfold t'_def)
    then show ?thesis using n by simp
  next
    case (Inr u)
    then have "tx_sign now signer t = setSignature (signer (slice (tx_bytes t') 0 85)) t'"
      by (cases "setNonce now t") (simp add: tx_sign_unfold t'_def)
    then show ?thesis
      using setSignature_frame [OF n(1), of "signer (slice (tx_bytes t') 0 85)"] n(2) by simp
  qed
qed

lemma perform_frame:
  assumes "length (tx_bytes t) = 150" "callFits c"
  shows "length (tx_bytes (snd (perform c t))) = 150
    \<and> drop 149 (tx_bytes (snd (perform c t))) = drop 149 (tx_bytes t)"
proof (cases c)
  case (SetRecipient a)
  then show ?thesis using lower_frame [OF setRecipient_frame [OF assms(1), of a]] assms(2) by simp
next
  case (SetSignature s)
  then show ?thesis using setSignature_frame [OF assms(1)] by simp
next
  case (Sign now signer)
  then show ?thesis using tx_sign_frame [OF assms(1)] by simp
qed (simp_all add: lower_frame [OF setVersion_frame [OF assms(1)]]
    lower_frame [OF setSender_frame [OF assms(1)]] lower_frame [OF setValue_frame [OF assms(1)]]
    lower_frame [OF setNonce_frame [OF assms(1)]] lower_frame [OF setPrefix_frame [OF assms(1)]]
    lower_frame [OF setName_frame [OF assms(1)]]
    lower_frame [OF setProfitPercent_frame [OF assms(1)]]
    lower_frame [OF setFeePercent_frame [OF assms(1)]])

lemma runCalls_frame:
  assumes "length (tx_bytes t) = 150" "list_all callFits calls"
  shows "length (tx_bytes (runCalls calls t)) = 150
    \<and> drop 149 (tx_bytes (runCalls calls t)) = drop 149 (tx_bytes t)"
  using assms(2)
proof (induction calls rule: rev_induct)
  case Nil
  then show ?case using assms(1) by (simp add: runCalls_def)
next
  case (snoc c calls)
  then have i: "length (tx_bytes (runCalls calls t)) = 150"
    "drop 149 (tx_bytes (runCalls calls t)) = drop 149 (tx_bytes t)" and c: "callFits c"
    by simp_all
  have r: "runCalls (calls @ [c]) t = snd (perform c (runCalls calls t))"
    by (simp add: runCalls_def)
  show ?case using perform_frame [OF i(1) c] i(2) by (simp add: r)
qed

lemma at_149:
  assumes "length xs = 150"
  shows "drop 149 xs = [at xs 149]"
proof -
  have "drop 149 xs = xs ! 149 # drop 150 xs"
    using assms Cons_nth_drop_Suc [of 149 xs] by simp
  then show ?thesis using assms by (simp add: at_def)
qed

lemma runCalls_last_byte:
  assumes "length (tx_bytes t) = 150" "list_all callFits calls"
  shows "at (tx_bytes (runCalls calls t)) 149 = at (tx_bytes t) 149"
  using runCalls_frame [OF assms] at_149 [of "tx_bytes t"] at_149 [of "tx_bytes (runCalls calls t)"]
    assms(1)
  by simp

lemma newTransaction_bytes: "tx_bytes newTransaction = 1 # replicate 149 0"
  by code_simp

text \<open>
  C10: in a transaction of 150 bytes \<open>setSignature\<close> writes exactly the offsets 85 to
  148 (and nothing when it rejects its argument), \<open>getSignature\<close> returns exactly the
  bytes at the offsets 85 to 148, every other setter leaves the bytes from offset 85 on
  as they were, and \<open>sign\<close> leaves the byte at offset 149 as it was, whatever the clock
  shows and whatever the signing function returns. So after every sequence of setter
  and \<open>sign\<close> calls on \<open>new Transaction()\<close>, whether they throw or not, the record
  still has 150 bytes and the byte at offset 149 is 0. The addresses given to
  \<open>setRecipient\<close> are assumed to have at most 50 bytes; every address that the library
  builds does: \<open>new Address()\<close>, \<open>Address.fromBytes\<close>, \<open>Address.fromBech32\<close>, and the
  setters of an address keep the bound.
\<close>

theorem last_byte_never_written:
  "(list_all callFits calls \<longrightarrow>
      length (tx_bytes (runCalls calls newTransaction)) = 150
      \<and> at (tx_bytes (runCalls calls newTransaction)) 149 = 0)
   \<and> (length (tx_bytes t) = 150 \<longrightarrow>
      (length sig = 64 \<longrightarrow>
         tx_bytes (snd (setSignature sig t)) = take 85 (tx_bytes t) @ sig @ drop 149 (tx_bytes t))
      \<and> (length sig \<noteq> 64 \<longrightarrow> snd (setSignature sig t) = t)
      \<and> getSignature t = take 64 (drop 85 (tx_bytes t))
      \<and> drop 85 (tx_bytes (snd (setVersion val t))) = drop 85 (tx_bytes t)
      \<and> drop 85 (tx_bytes (snd (setSender a t))) = drop 85 (tx_bytes t)
      \<and> (addressFits a \<longrightarrow> drop 85 (tx_bytes (snd (setRecipient a t))) = drop 85 (tx_bytes t))
      \<and> drop 85 (tx_bytes (snd (setValue val t))) = drop 85 (tx_bytes t)
      \<and> drop 85 (tx_bytes (snd (setNonce val t))) = drop 85 (tx_bytes t)
      \<and> drop 85 (tx_bytes (snd (setPrefix p t))) = drop 85 (tx_bytes t)
      \<and> drop 85 (tx_bytes (snd (setName name t))) = drop 85 (tx_bytes t)
      \<and> drop 85 (tx_bytes (snd (setProfitPercent val t))) = drop 85 (tx_bytes t)
      \<and> drop 85 (tx_bytes (snd (setFeePercent val t))) = drop 85 (tx_bytes t)
      \<and> drop 149 (tx_bytes (snd (tx_sign now signer t))) = drop 149 (tx_bytes t)
      \<and> (callFits c \<longrightarrow> length (tx_bytes (snd (perform c t))) = 150)
      \<and> (list_all callFits calls \<longrightarrow>
           length (tx_bytes (runCalls calls t)) = 150
           \<and> at (tx_bytes (runCalls calls t)) 149 = at (tx_bytes t) 149))
   \<and> addressFits newAddress
   \<and> (adr_fromBytes bytes = Inr b \<longrightarrow> addressFits b)
   \<and> (adr_fromBech32 s = Inr b \<longrightarrow> addressFits b)
   \<and> (addressFits adr \<longrightarrow> addressFits (snd (adr_setPrefix p adr)))
   \<and> (addressFits adr \<and> length (pk_bytes k) = 32 \<longrightarrow>
        addressFits (snd (adr_setPublicKey k adr)))"
proof (intro conjI impI)
  have n: "length (tx_bytes newTransaction) = 150" "at (tx_bytes newTransaction) 149 = 0"
    by (simp_all add: newTransaction_bytes at_def nth_Cons')
  {
    assume f: "list_all callFits calls"
    show "length (tx_bytes (runCalls calls newTransaction)) = 150"
      using runCalls_frame [OF n(1) f] by simp
    show "at (tx_bytes (runCalls calls newTransaction)) 149 = 0"
      using runCalls_last_byte [OF n(1) f] n(2) by simp
  }
  {
    assume l: "length (tx_bytes t) = 150"
    show "tx_bytes (snd (setSignature sig t)) = take 85 (tx_bytes t) @ sig @ drop 149 (tx_bytes t)"
      if "length sig = 64"
      using l that by (rule setSignature_bytes)
    show "snd (setSignature sig t) = t" if "length sig \<noteq> 64"
      using that by (simp add: setSignature_rejects)
    show "getSignature t = take 64 (drop 85 (tx_bytes t))"
      using l by (rule getSignature_bytes)
    show "drop 85 (tx_bytes (snd (setVersion val t))) = drop 85 (tx_bytes t)"
      using setVersion_frame [OF l] by simp
    show "drop 85 (tx_bytes (snd (setSender a t))) = drop 85 (tx_bytes t)"
      using setSender_frame [OF l] by simp
    show "drop 85 (tx_bytes (snd (setRecipient a t))) = drop 85 (tx_bytes t)" if "addressFits a"
      using setRecipient_frame [OF l that] by simp
    show "drop 85 (tx_bytes (snd (setValue val t))) = drop 85 (tx_bytes t)"
      using setValue_frame [OF l] by simp
    show "drop 85 (tx_bytes (snd (setNonce val t))) = drop 85 (tx_bytes t)"
      using setNonce_frame [OF l] by simp
    show "drop 85 (tx_bytes (snd (setPrefix p t))) = drop 85 (tx_bytes t)"
      using setPrefix_frame [OF l] by simp
    show "drop 85 (tx_bytes (snd (setName name t))) = drop 85 (tx_bytes t)"
      using setName_frame [OF l] by simp
    show "drop 85 (tx_bytes (snd (setProfitPercent val t))) = drop 85 (tx_bytes t)"
      using setProfitPercent_frame [OF l] by simp
    show "drop 85 (tx_bytes (snd (setFeePercent val t))) = drop 85 (tx_bytes t)"
      using setFeePercent_frame [OF l] by simp
    show "drop 149 (tx_bytes (snd (tx_sign now signer t))) = drop 149 (tx_bytes t)"
      using tx_sign_frame [OF l] by simp
    show "length (tx_bytes (snd (perform c t))) = 150" if "callFits c"
      using perform_frame [OF l that] by simp
    {
      assume f: "list_all callFits calls"
      show "length (tx_bytes (runCalls calls t)) = 150"
        using runCalls_frame [OF l f] by simp
      show "at (tx_bytes (runCalls calls t)) 149 = at (tx_bytes t) 149"
        using l f by (rule runCalls_last_byte)
    }
  }
  show "addressFits newAddress" by (rule addressFits_built)
  show "addressFits b" if "adr_fromBytes bytes = Inr b" using that by (rule addressFits_built)
  show "addressFits b" if "adr_fromBech32 s = Inr b" using that by (rule addressFits_built)
  show "addressFits (snd (adr_setPrefix p adr))" if "addressFits adr"
    using that by (rule addressFits_built)
  show "addressFits (snd (adr_setPublicKey k adr))"
    if "addressFits adr \<and> length (pk_bytes k) = 32"
    using that addressFits_built(5) by blast
qed

theorem last_byte_never_written_witness:
  "list_all callFits exampleCalls
   \<and> length (tx_bytes (runCalls exampleCalls newTransaction)) = 150
   \<and> at (tx_bytes (runCalls exampleCalls newTransaction)) 149 = 0
   \<and> length (tx_bytes newTransaction) = 150
   \<and> length (replicate 64 (255 :: int)) = 64
   \<and> tx_bytes (snd (setSignature (replicate 64 255) newTransaction)) =
        take 85 (tx_bytes newTransaction) @ replicate 64 255 @ drop 149 (tx_bytes newTransaction)
   \<and> length [1, 2, 3 :: int] \<noteq> 64
   \<and> snd (setSignature [1, 2, 3] newTransaction) = newTransaction
   \<and> addressFits newAddress
   \<and> drop 85 (tx_bytes (snd (setRecipient newAddress newTransaction))) =
        drop 85 (tx_bytes newTransaction)
   \<and> callFits (SetRecipient newAddress)
   \<and> length (tx_bytes (snd (perform (SetRecipient newAddress) newTransaction))) = 150
   \<and> adr_fromBytes (replicate 34 0) = Inr \<lparr>adr_bytes = replicate 34 0\<rparr>
   \<and> addressFits \<lparr>adr_bytes = replicate 34 0\<rparr>
   \<and> adr_fromBech32 ''umi1qqqqqqqqqqqqqqqqqqqqqqqqqqqqqqqqqqqqqqqqqqqqqqqqqqqqr5zcpj''
        = Inr newAddress
   \<and> addressFits (snd (adr_setPrefix ''abc'' newAddress))
   \<and> length (pk_bytes \<lparr>pk_bytes = replicate 32 7\<rparr>) = 32
   \<and> addressFits (snd (adr_setPublicKey \<lparr>pk_bytes = replicate 32 7\<rparr> newAddress))"
proof -
  have h: "list_all callFits exampleCalls"
    "length (tx_bytes newTransaction) = 150"
    "length (replicate 64 (255 :: int)) = 64"
    "length [1, 2, 3 :: int] \<noteq> 64"
    "callFits (SetRecipient newAddress)"
    "adr_fromBytes (replicate 34 0) = Inr \<lparr>adr_bytes = replicate 34 0\<rparr>"
    "adr_fromBech32 ''umi1qqqqqqqqqqqqqqqqqqqqqqqqqqqqqqqqqqqqqqqqqqqqqqqqqqqqr5zcpj''
       = Inr newAddress"
    "length (pk_bytes \<lparr>pk_bytes = replicate 32 7\<rparr>) = 32"
    by code_simp+
  note w = last_byte_never_written [where calls = exampleCalls and t = newTransaction
      and a = newAddress and c = "SetRecipient newAddress" and adr = newAddress
      and p = "''abc''" and k = "\<lparr>pk_bytes = replicate 32 7\<rparr>"]
  have 1: "length (tx_bytes (runCalls exampleCalls newTransaction)) = 150
      \<and> at (tx_bytes (runCalls exampleCalls newTransaction)) 149 = 0"
    using w h(1) by blast
  have 2: "tx_bytes (snd (setSignature (replicate 64 255) newTransaction)) =
      take 85 (tx_bytes newTransaction) @ replicate 64 255 @ drop 149 (tx_bytes newTransaction)"
    using w [where sig = "replicate 64 255"] h(2,3) by blast
  have 3: "snd (setSignature [1, 2, 3] newTransaction) = newTransaction"
    using w [where sig = "[1, 2, 3]"] h(2,4) by blast
  have 4: "addressFits newAddress" using w by blast
  have 5: "drop 85 (tx_bytes (snd (setRecipient newAddress newTransaction))) =
      drop 85 (tx_bytes newTransaction)"
    "length (tx_bytes (snd (perform (SetRecipient newAddress) newTransaction))) = 150"
    using w h(2,5) 4 by blast+
  have 6: "addressFits \<lparr>adr_bytes = replicate 34 0\<rparr>"
    using w [where bytes = "replicate 34 0" and b = "\<lparr>adr_bytes = replicate 34 0\<rparr>"] h(6)
    by blast
  have 7: "addressFits (snd (adr_setPrefix ''abc'' newAddress))"
    "addressFits (snd (adr_setPublicKey \<lparr>pk_bytes = replicate 32 7\<rparr> newAddress))"
    using w 4 h(8) by blast+
  have 8: "addressFits newAddress"
    using w [where s = "''umi1qqqqqqqqqqqqqqqqqqqqqqqqqqqqqqqqqqqqqqqqqqqqqqqqqqqqr5zcpj''"
        and b = newAddress] h(7)
    by blast
  show ?thesis using h 1 2 3 4 5 6 7 8 by blast
qed

end
